theory Spec2Isabelle
  imports Main "HOL-Library.Word"
begin

section \<open>The brain: data model\<close>

text \<open>
  The robot's brain is a single goroutine, \<open>runBrain\<close>, that owns a table of
  lock records and serves check-out, check-in and update requests arriving on one channel,
  in front of a pluggable storage provider with optional encryption.  The embedding below
  follows the Go source function by function.  Channels are modelled by the trace of what
  was sent on them; the storage provider, the cipher and the random source are parameters.
\<close>

type_synonym bytes = "8 word list"

text \<open>A reply channel, made fresh by every caller (\<open>make(chan ...)\<close>).\<close>

type_synonym chan = nat

text \<open>\<open>time.Time\<close> and \<open>time.Duration\<close> in nanoseconds.\<close>

type_synonym time = int

text \<open>
  The return codes the brain uses.  The declaration of \<open>RetVal\<close> lives in another file of
  the package; only the constants that the brain uses are listed.
\<close>

datatype RetVal = Ok | InvalidDatumKey | BrainFailed | DatumNotFound | DatumLockExpired
  | DataFormatError

text \<open>
  What \<open>Retrieve(key) (blob, exists, err)\<close> of a storage provider can answer:
  an error, no such datum, or the blob (the interface promises a blob whenever
  \<open>exists\<close> is true).
\<close>

datatype retrieved = RetrieveFailed | NotExists | Exists bytes

text \<open>
  The \<open>SimpleBrain\<close> interface.  A provider is an arbitrary state machine over its own
  state \<open>'p\<close>; \<open>Store\<close> answers \<open>True\<close> when it returns an error.
\<close>

record 'p SimpleBrain =
  Store :: "'p \<Rightarrow> string \<Rightarrow> bytes \<Rightarrow> 'p \<times> bool"
  Retrieve :: "'p \<Rightarrow> string \<Rightarrow> 'p \<times> retrieved"

text \<open>
  What is fixed at start-up: the configured provider (\<open>botCfg.brain\<close>, \<open>None\<close> for nil),
  the \<open>encryptBrain\<close> flag, the cipher (\<open>encrypt\<close> and \<open>decrypt\<close> are defined elsewhere
  in the package; \<open>None\<close> is their error) and the bytes that the n-th call of \<open>rand.Read\<close>
  delivers.
\<close>

record 'p botCfg =
  brain :: "'p SimpleBrain option"
  encryptBrain :: bool
  encrypt :: "bytes \<Rightarrow> bytes \<Rightarrow> bytes option"
  decrypt :: "bytes \<Rightarrow> bytes \<Rightarrow> bytes option"
  rand_Read :: "nat \<Rightarrow> 64 word"

record checkOutRequest =
  key :: string
  rw :: bool
  reply :: chan

text \<open>\<open>checkOutReply{token, bytes, exists, retval}\<close>; a nil blob is \<open>None\<close>.\<close>

type_synonym checkOutReply = "string \<times> bytes option \<times> bool \<times> RetVal"

text \<open>
  A \<open>brainOp\<close> with its payload: \<open>checkInRequest{key, token}\<close>,
  \<open>updateRequest{key, token, datum, reply}\<close>, \<open>quitRequest{reply}\<close>.
\<close>

datatype brainOp =
    checkOutBytes checkOutRequest
  | checkInBytes string string
  | updateBytes string string bytes chan
  | quit chan

datatype memState = newMemory | seen | available

record memstatus =
  state :: memState
  token :: string
  waiters :: "checkOutRequest list"

datatype memoryContext = memoryContext string string string

record shortTermMemory =
  memory :: string
  timestamp :: time

text \<open>What the brain does to the outside, in the order it does it.\<close>

datatype effect =
    Retrieved string
  | Stored string bytes
  | CheckOutReplied checkOutRequest checkOutReply
  | UpdateReplied chan RetVal
  | QuitReplied chan

text \<open>
  Everything mutable: the lock table \<open>memories\<close> of \<open>runBrain\<close>, the provider's state,
  the number of calls to \<open>rand.Read\<close> so far, the global \<open>cryptKey\<close> (set by
  \<open>initializeEncryption\<close>, which no request of the loop calls), the global
  \<open>shortTermMemories\<close>, and the trace of effects.
\<close>

record 'p world =
  memories :: "string \<rightharpoonup> memstatus"
  provider :: 'p
  nrand :: nat
  cryptKey_key :: bytes
  cryptKey_initializing :: bool
  cryptKey_initialized :: bool
  shortTermMemories :: "memoryContext \<rightharpoonup> shortTermMemory"
  trace :: "effect list"

definition botEncryptionKey :: string where
  "botEncryptionKey = ''bot:encryptionKey''"

definition shortTermDuration :: time where
  "shortTermDuration = 7 * (60 * 1000000000)"

section \<open>Keys and tokens\<close>

text \<open>
  \<open>keyRe = regexp.MustCompile(`[\w:]+`)\<close> and \<open>keyRe.MatchString\<close>: the expression is
  not anchored, so a string matches when it has at least one byte of the class
  \<open>[0-9A-Za-z_:]\<close>.
\<close>

definition wordChar :: "char \<Rightarrow> bool" where
  "wordChar c = (c \<in> set ''0123456789abcdefghijklmnopqrstuvwxyzABCDEFGHIJKLMNOPQRSTUVWXYZ_'')"

definition keyRe_MatchString :: "string \<Rightarrow> bool" where
  "keyRe_MatchString s = list_ex (\<lambda>c. wordChar c \<or> c = CHR '':'') s"

text \<open>\<open>fmt.Sprintf("%x", ltb)\<close> for a byte slice: two lower-case hex digits per byte.\<close>

definition hexDigit :: "nat \<Rightarrow> char" where
  "hexDigit n = ''0123456789abcdef'' ! (n mod 16)"

definition hexByte :: "8 word \<Rightarrow> string" where
  "hexByte b = [hexDigit (unat b div 16), hexDigit (unat b mod 16)]"

definition sprintf_x :: "bytes \<Rightarrow> string" where
  "sprintf_x bs = concat (map hexByte bs)"

text \<open>The 8-byte buffer \<open>ltb\<close> after \<open>rand.Read(ltb)\<close> delivered the 64 bits \<open>w\<close>.\<close>

definition ltb :: "64 word \<Rightarrow> bytes" where
  "ltb w = map (\<lambda>i. ucast (drop_bit (8 * i) w)) [0, 1, 2, 3, 4, 5, 6, 7]"

text \<open>The lock token minted by the n-th call of \<open>rand.Read\<close>.\<close>

definition mint :: "'p botCfg \<Rightarrow> nat \<Rightarrow> string" where
  "mint cfg n = sprintf_x (ltb (rand_Read cfg n))"

section \<open>Storage through the encryption layer\<close>

text \<open>The call \<open>botCfg.brain.Store(dkey, datum)\<close> and the code it is turned into.\<close>

definition brainStore :: "'p SimpleBrain \<Rightarrow> 'p world \<Rightarrow> string \<Rightarrow> bytes \<Rightarrow> RetVal \<times> 'p world" where
  "brainStore b st dkey datum =
     (case Store b (provider st) dkey datum of (p', err) \<Rightarrow>
        (if err then BrainFailed else Ok,
         st\<lparr>provider := p', trace := trace st @ [Stored dkey datum]\<rparr>))"

definition storeDatum :: "'p botCfg \<Rightarrow> 'p world \<Rightarrow> string \<Rightarrow> bytes \<Rightarrow> RetVal \<times> 'p world" where
  "storeDatum cfg st dkey datum =
     (case brain cfg of
        None \<Rightarrow> (BrainFailed, st)
      | Some b \<Rightarrow>
          if encryptBrain cfg then
            if \<not> cryptKey_initialized st
               \<and> \<not> (cryptKey_initializing st \<and> dkey = botEncryptionKey)
            then (BrainFailed, st)
            else (case encrypt cfg datum (cryptKey_key st) of
                    None \<Rightarrow> (BrainFailed, st)
                  | Some encrypted \<Rightarrow> brainStore b st dkey encrypted)
          else brainStore b st dkey datum)"

text \<open>
  \<open>getDatum\<close>.  The token is minted before the provider is asked; every failing return
  hands back the empty token.
\<close>

definition getDatum :: "'p botCfg \<Rightarrow> 'p world \<Rightarrow> string \<Rightarrow> bool \<Rightarrow> checkOutReply \<times> 'p world" where
  "getDatum cfg st dkey rw' =
     (if \<not> keyRe_MatchString dkey then (('''', None, False, InvalidDatumKey), st)
      else
        (case brain cfg of
           None \<Rightarrow> (('''', None, False, BrainFailed), st)
         | Some b \<Rightarrow>
             (let tok = (if rw' then mint cfg (nrand st) else '''');
                  st1 = (if rw' then st\<lparr>nrand := Suc (nrand st)\<rparr> else st)
              in (case Retrieve b (provider st1) dkey of (p', res) \<Rightarrow>
                (let st2 = st1\<lparr>provider := p', trace := trace st1 @ [Retrieved dkey]\<rparr>
                 in (case res of
                       RetrieveFailed \<Rightarrow> (('''', None, False, BrainFailed), st2)
                     | NotExists \<Rightarrow> ((tok, None, False, Ok), st2)
                     | Exists db \<Rightarrow>
                         (if encryptBrain cfg then
                            (if cryptKey_initializing st2 then
                               (if dkey \<noteq> botEncryptionKey
                                then (('''', None, False, BrainFailed), st2)
                                else (case decrypt cfg db (cryptKey_key st2) of
                                        None \<Rightarrow> (('''', None, False, BrainFailed), st2)
                                      | Some decrypted \<Rightarrow>
                                          ((tok, Some decrypted, True, Ok), st2)))
                             else if cryptKey_initialized st2 then
                               (case decrypt cfg db (cryptKey_key st2) of
                                  None \<Rightarrow>
                                    ((tok, Some db, True, Ok),
                                     snd (storeDatum cfg st2 dkey db))
                                | Some decrypted \<Rightarrow>
                                    ((tok, Some decrypted, True, Ok), st2))
                             else (('''', None, False, BrainFailed), st2))
                          else ((tok, Some db, True, Ok), st2))))))))"

section \<open>The lock coordinator\<close>

text \<open>
  \<open>replyToWaiter(m)\<close>, for the record \<open>m\<close> that the table holds under \<open>k\<close> (the table
  maps keys to pointers, so the record is updated in place).  Both callers check
  \<open>len(m.waiters) > 0\<close> first; on an empty queue the Go code would panic on
  \<open>m.waiters[0]\<close>, and the model leaves the world as it is.
\<close>

definition replyToWaiter :: "'p botCfg \<Rightarrow> 'p world \<Rightarrow> string \<Rightarrow> 'p world" where
  "replyToWaiter cfg st k =
     (case memories st k of
        None \<Rightarrow> st
      | Some m \<Rightarrow>
          (case waiters m of
             [] \<Rightarrow> st
           | creq # rest \<Rightarrow>
               (case getDatum cfg st (key creq) True of ((lt, d, e, r), st1) \<Rightarrow>
                  st1\<lparr>memories := (memories st1)
                         (k \<mapsto> \<lparr>state = newMemory, token = lt, waiters = rest\<rparr>),
                      trace := trace st1 @ [CheckOutReplied creq (lt, d, e, r)]\<rparr>)))"

text \<open>One request taken from \<open>brainChanEvents\<close> (\<open>quit\<close> is handled by the loop).\<close>

definition checkOutOp :: "'p botCfg \<Rightarrow> 'p world \<Rightarrow> checkOutRequest \<Rightarrow> 'p world" where
  "checkOutOp cfg st creq =
     (case memories st (key creq) of
        None \<Rightarrow>
          (case getDatum cfg st (key creq) (rw creq) of ((lt, d, e, r), st1) \<Rightarrow>
             if r \<noteq> Ok
             then st1\<lparr>trace := trace st1 @ [CheckOutReplied creq (lt, d, e, r)]\<rparr>
             else
               let st2 = (if rw creq
                          then st1\<lparr>memories := (memories st1)
                                 (key creq \<mapsto> \<lparr>state = newMemory, token = lt, waiters = []\<rparr>)\<rparr>
                          else st1)
               in st2\<lparr>trace := trace st2 @ [CheckOutReplied creq (lt, d, e, r)]\<rparr>)
      | Some memStat \<Rightarrow>
          if \<not> rw creq then
            (case getDatum cfg st (key creq) (rw creq) of ((lt, d, e, r), st1) \<Rightarrow>
               st1\<lparr>trace := trace st1 @ [CheckOutReplied creq (lt, d, e, r)]\<rparr>)
          else if state memStat = available then
            (case getDatum cfg st (key creq) (rw creq) of ((lt, d, e, r), st1) \<Rightarrow>
               st1\<lparr>memories := (memories st1)
                      (key creq \<mapsto> memStat\<lparr>state := newMemory, token := lt\<rparr>),
                   trace := trace st1 @ [CheckOutReplied creq (lt, d, e, r)]\<rparr>)
          else
            st\<lparr>memories := (memories st)
                  (key creq \<mapsto> memStat\<lparr>waiters := waiters memStat @ [creq]\<rparr>)\<rparr>)"

definition checkInOp :: "'p botCfg \<Rightarrow> 'p world \<Rightarrow> string \<Rightarrow> string \<Rightarrow> 'p world" where
  "checkInOp cfg st k tok =
     (case memories st k of
        None \<Rightarrow> st
      | Some m \<Rightarrow>
          if tok \<noteq> token m then st
          else if length (waiters m) > 0 then replyToWaiter cfg st k
          else st\<lparr>memories := (memories st)(k := None)\<rparr>)"

definition updateOp :: "'p botCfg \<Rightarrow> 'p world \<Rightarrow> string \<Rightarrow> string \<Rightarrow> bytes \<Rightarrow> chan \<Rightarrow> 'p world" where
  "updateOp cfg st k tok datum ch =
     (case memories st k of
        None \<Rightarrow> st\<lparr>trace := trace st @ [UpdateReplied ch DatumNotFound]\<rparr>
      | Some m \<Rightarrow>
          if tok \<noteq> token m
          then st\<lparr>trace := trace st @ [UpdateReplied ch DatumLockExpired]\<rparr>
          else
            (case storeDatum cfg st k datum of (r, st1) \<Rightarrow>
               let st2 = st1\<lparr>trace := trace st1 @ [UpdateReplied ch r]\<rparr>
               in if length (waiters m) > 0 then replyToWaiter cfg st2 k
                  else st2\<lparr>memories := (memories st2)(k := None)\<rparr>))"

fun brainChanEvent :: "'p botCfg \<Rightarrow> 'p world \<Rightarrow> brainOp \<Rightarrow> 'p world" where
  "brainChanEvent cfg st (checkOutBytes creq) = checkOutOp cfg st creq"
| "brainChanEvent cfg st (checkInBytes k tok) = checkInOp cfg st k tok"
| "brainChanEvent cfg st (updateBytes k tok datum ch) = updateOp cfg st k tok datum ch"
| "brainChanEvent cfg st (quit ch) = st\<lparr>trace := trace st @ [QuitReplied ch]\<rparr>"

text \<open>
  The tick.  First the sweep of the short-term memories, then the body of
  \<open>for _, m := range memories\<close> for the record under each key.
\<close>

definition sweep :: "time \<Rightarrow> (memoryContext \<rightharpoonup> shortTermMemory) \<Rightarrow> (memoryContext \<rightharpoonup> shortTermMemory)" where
  "sweep now stm =
     (\<lambda>k. case stm k of
             None \<Rightarrow> None
           | Some v \<Rightarrow> if now - timestamp v > shortTermDuration then None else Some v)"

definition age :: "'p botCfg \<Rightarrow> 'p world \<Rightarrow> string \<Rightarrow> 'p world" where
  "age cfg st k =
     (case memories st k of
        None \<Rightarrow> st
      | Some m \<Rightarrow>
          (case state m of
             newMemory \<Rightarrow> st\<lparr>memories := (memories st)(k \<mapsto> m\<lparr>state := seen\<rparr>)\<rparr>
           | seen \<Rightarrow>
               if length (waiters m) > 0 then replyToWaiter cfg st k
               else st\<lparr>memories := (memories st)(k \<mapsto> m\<lparr>state := available\<rparr>)\<rparr>
           | available \<Rightarrow> st))"

text \<open>
  Go visits the keys of a map in an order of its choosing, each key once; \<open>ks\<close> is that
  order.
\<close>

definition range_order :: "string list \<Rightarrow> (string \<rightharpoonup> memstatus) \<Rightarrow> bool" where
  "range_order ks M = (distinct ks \<and> set ks = dom M)"

definition processMemories :: "'p botCfg \<Rightarrow> 'p world \<Rightarrow> time \<Rightarrow> string list \<Rightarrow> 'p world" where
  "processMemories cfg st now ks =
     foldl (age cfg) (st\<lparr>shortTermMemories := sweep now (shortTermMemories st)\<rparr>) ks"

text \<open>
  What the \<open>select\<close> of \<open>runBrain\<close> can receive: a request, or a tick at time \<open>now\<close>
  whose \<open>range\<close> visits the lock table in the order \<open>ks\<close>.
\<close>

datatype event = Request brainOp | Tick time "string list"

fun handle :: "'p botCfg \<Rightarrow> 'p world \<Rightarrow> event \<Rightarrow> 'p world" where
  "handle cfg st (Request op) = brainChanEvent cfg st op"
| "handle cfg st (Tick now ks) = processMemories cfg st now ks"

text \<open>The loop: \<open>quit\<close> answers and leaves it (\<open>break loop\<close>).\<close>

fun runBrain :: "'p botCfg \<Rightarrow> 'p world \<Rightarrow> event list \<Rightarrow> 'p world" where
  "runBrain cfg st [] = st"
| "runBrain cfg st (Request (quit ch) # evs) = handle cfg st (Request (quit ch))"
| "runBrain cfg st (ev # evs) = runBrain cfg (handle cfg st ev) evs"

text \<open>
  The world when \<open>runBrain\<close> enters its loop: both tables freshly made, nothing sent
  yet and no token minted yet.
\<close>

definition start :: "'p world \<Rightarrow> 'p world" where
  "start st = st\<lparr>memories := Map.empty, shortTermMemories := Map.empty,
                nrand := 0, trace := []\<rparr>"

section \<open>The callers' side\<close>

text \<open>
  A function of the datum API either returns at once, or sends one request on
  \<open>brainChanEvents\<close>; after a check-out or an update it then blocks on its reply channel
  and returns what the continuation makes of the reply; a check-in is sent and forgotten.
\<close>

datatype 'a call =
    Return 'a
  | CheckOutCall checkOutRequest "checkOutReply \<Rightarrow> 'a"
  | UpdateCall string string bytes chan "RetVal \<Rightarrow> 'a"
  | CheckInCall string string 'a

fun sends :: "'a call \<Rightarrow> brainOp list" where
  "sends (Return x) = []"
| "sends (CheckOutCall creq f) = [checkOutBytes creq]"
| "sends (UpdateCall d lt datum ch f) = [updateBytes d lt datum ch]"
| "sends (CheckInCall k lt x) = [checkInBytes k lt]"

definition checkout :: "string \<Rightarrow> bool \<Rightarrow> chan \<Rightarrow> checkOutReply call" where
  "checkout d rw' ch =
     (if \<not> keyRe_MatchString d then Return ('''', None, False, InvalidDatumKey)
      else CheckOutCall \<lparr>key = d, rw = rw', reply = ch\<rparr> (\<lambda>rep. rep))"

definition update :: "string \<Rightarrow> string \<Rightarrow> bytes \<Rightarrow> chan \<Rightarrow> RetVal call" where
  "update d lt datum ch =
     (if lt = '''' then Return Ok else UpdateCall d lt datum ch (\<lambda>ret. ret))"

definition checkinDatum :: "string \<Rightarrow> string \<Rightarrow> unit call" where
  "checkinDatum k locktoken =
     (if locktoken = '''' then Return () else CheckInCall k locktoken ())"

text \<open>
  \<open>checkoutDatum\<close> returns \<open>(locktoken, exists, ret)\<close> and fills \<open>datum\<close> through the
  pointer: the fourth component is what is found behind the pointer afterwards, \<open>None\<close>
  when nothing was written.  \<open>unmarshal\<close> stands for \<open>json.Unmarshal\<close> into the caller's
  type: it answers what it wrote, which on an error may be a part of the value, and
  whether it returned an error.  A reply with \<open>exists\<close> and a nil blob would make
  \<open>*dbytes\<close> panic: that is the result \<open>None\<close>.
\<close>

definition checkoutDatum ::
  "(bytes \<Rightarrow> 'd option \<times> bool) \<Rightarrow> string \<Rightarrow> bool \<Rightarrow> chan \<Rightarrow> (string \<times> bool \<times> RetVal \<times> 'd option) option call" where
  "checkoutDatum unmarshal k rw' ch =
     map_call
       (\<lambda>(locktoken, dbytes, exists, ret).
          if exists then
            (case dbytes of
               None \<Rightarrow> None
             | Some b \<Rightarrow>
                 (case unmarshal b of
                    (written, err) \<Rightarrow>
                      if err then Some (locktoken, False, DataFormatError, written)
                      else Some (locktoken, exists, ret, written)))
          else Some (locktoken, exists, ret, None))
       (checkout k rw' ch)"

definition updateDatum ::
  "('d \<Rightarrow> bytes option) \<Rightarrow> string \<Rightarrow> string \<Rightarrow> 'd \<Rightarrow> chan \<Rightarrow> RetVal call" where
  "updateDatum marshal k locktoken datum ch =
     (case marshal datum of
        None \<Rightarrow> Return DataFormatError
      | Some dbytes \<Rightarrow> update k locktoken dbytes ch)"

text \<open>
  What the methods below read from the robot: \<open>r.User\<close>, \<open>r.Channel\<close>, and through
  \<open>r.getContext()\<close> the \<open>NameSpace\<close> of the current task and \<open>c.nsExtension\<close>.
\<close>

record Robot =
  User :: string
  Channel :: string
  NameSpace :: string
  nsExtension :: string

definition CheckoutDatum ::
  "(bytes \<Rightarrow> 'd option \<times> bool) \<Rightarrow> Robot \<Rightarrow> string \<Rightarrow> bool \<Rightarrow> chan \<Rightarrow> (string \<times> bool \<times> RetVal \<times> 'd option) option call" where
  "CheckoutDatum unmarshal r k rw' ch =
     (if CHR '':'' \<in> set k then Return (Some ('''', False, InvalidDatumKey, None))
      else
        let k' = (if length (nsExtension r) > 0
                  then NameSpace r @ '':'' @ nsExtension r @ '':'' @ k
                  else NameSpace r @ '':'' @ k)
        in checkoutDatum unmarshal k' rw' ch)"

definition CheckinDatum :: "Robot \<Rightarrow> string \<Rightarrow> string \<Rightarrow> unit call" where
  "CheckinDatum r k locktoken =
     (if locktoken = '''' then Return ()
      else if CHR '':'' \<in> set k then Return ()
      else
        let k' = (if length (nsExtension r) > 0
                  then NameSpace r @ '':'' @ nsExtension r @ '':'' @ k
                  else NameSpace r @ '':'' @ k)
        in checkinDatum k' locktoken)"

definition UpdateDatum ::
  "('d \<Rightarrow> bytes option) \<Rightarrow> Robot \<Rightarrow> string \<Rightarrow> string \<Rightarrow> 'd \<Rightarrow> chan \<Rightarrow> RetVal call" where
  "UpdateDatum marshal r k locktoken datum ch =
     (if CHR '':'' \<in> set k then Return InvalidDatumKey
      else
        let k' = (if length (nsExtension r) > 0
                  then NameSpace r @ '':'' @ nsExtension r @ '':'' @ k
                  else NameSpace r @ '':'' @ k)
        in updateDatum marshal k' locktoken datum ch)"

text \<open>
  The error code a caller gets back when the function returned without waiting for the
  brain.  \<open>CheckinDatum\<close> has no result, so its caller gets none.
\<close>

fun returned :: "('a \<Rightarrow> RetVal option) \<Rightarrow> 'a call \<Rightarrow> RetVal option" where
  "returned code (Return x) = code x"
| "returned code c = None"

definition checkoutCode :: "(string \<times> bool \<times> RetVal \<times> 'd option) option \<Rightarrow> RetVal option" where
  "checkoutCode x = (case x of None \<Rightarrow> None | Some (locktoken, exists, ret, v) \<Rightarrow> Some ret)"

definition updateCode :: "RetVal \<Rightarrow> RetVal option" where
  "updateCode ret = Some ret"

definition checkinCode :: "unit \<Rightarrow> RetVal option" where
  "checkinCode u = None"

text \<open>The namespaced key that the three methods build.\<close>

definition nsKey :: "Robot \<Rightarrow> string \<Rightarrow> string" where
  "nsKey r k = (if nsExtension r = '''' then NameSpace r @ '':'' @ k
                else NameSpace r @ '':'' @ nsExtension r @ '':'' @ k)"

section \<open>Short-term memories\<close>

text \<open>
  \<open>Remember\<close> and \<open>Recall\<close> work on the global map under its mutex; \<open>now\<close> is what
  \<open>time.Now()\<close> returned.
\<close>

definition Remember ::
  "Robot \<Rightarrow> time \<Rightarrow> (memoryContext \<rightharpoonup> shortTermMemory) \<Rightarrow> string \<Rightarrow> string \<Rightarrow> (memoryContext \<rightharpoonup> shortTermMemory)" where
  "Remember r now stm k v =
     stm(memoryContext k (User r) (Channel r) \<mapsto> \<lparr>memory = v, timestamp = now\<rparr>)"

definition Recall :: "Robot \<Rightarrow> (memoryContext \<rightharpoonup> shortTermMemory) \<Rightarrow> string \<Rightarrow> string" where
  "Recall r stm k =
     (case stm (memoryContext k (User r) (Channel r)) of
        None \<Rightarrow> ''''
      | Some m \<Rightarrow> memory m)"

section \<open>Notions the properties are stated with\<close>

text \<open>
  What holds of the lock table in every world the loop can reach: a key with a record
  once passed \<open>getDatum\<close>, every waiter queued under a key asked for that key read-write,
  and a record that is \<open>available\<close> has no waiters.
\<close>

definition table_ok :: "'p botCfg \<Rightarrow> 'p world \<Rightarrow> bool" where
  "table_ok cfg st =
     (\<forall>k m. memories st k = Some m \<longrightarrow>
        keyRe_MatchString k \<and> brain cfg \<noteq> None
        \<and> list_all (\<lambda>w. key w = k \<and> rw w) (waiters m)
        \<and> (state m = available \<longrightarrow> waiters m = []))"

text \<open>The replies sent so far to the check-out request \<open>w\<close>.\<close>

fun repliesTo :: "checkOutRequest \<Rightarrow> effect \<Rightarrow> bool" where
  "repliesTo w (CheckOutReplied creq rep) = (creq = w)"
| "repliesTo w eff = False"

definition answers :: "'p world \<Rightarrow> checkOutRequest \<Rightarrow> effect list" where
  "answers st w = filter (repliesTo w) (trace st)"



text \<open>
  Every token handed out or recorded so far is empty or was minted by one of the
  \<open>nrand st\<close> calls of \<open>rand.Read\<close>.
\<close>

fun tokenOf :: "effect \<Rightarrow> string" where
  "tokenOf (CheckOutReplied creq (lt, d, e, r)) = lt"
| "tokenOf eff = ''''"

definition minted :: "'p botCfg \<Rightarrow> nat \<Rightarrow> string \<Rightarrow> bool" where
  "minted cfg n t = (t = '''' \<or> (\<exists>i < n. t = mint cfg i))"

definition tokens_ok :: "'p botCfg \<Rightarrow> 'p world \<Rightarrow> bool" where
  "tokens_ok cfg st =
     ((\<forall>eff \<in> set (trace st). minted cfg (nrand st) (tokenOf eff))
      \<and> (\<forall>k m. memories st k = Some m \<longrightarrow> minted cfg (nrand st) (token m)))"

text \<open>The effects that are calls of the storage provider.\<close>

fun storageEffect :: "effect \<Rightarrow> bool" where
  "storageEffect (Retrieved k) = True"
| "storageEffect (Stored k b) = True"
| "storageEffect eff = False"



text \<open>
  What one step may do with tokens: it sends at most one effect that carries a token, any
  token it sends or records is empty or the one it minted itself, and a record's token
  otherwise is the one the record had.
\<close>

definition step_ok :: "'p botCfg \<Rightarrow> 'p world \<Rightarrow> 'p world \<Rightarrow> bool" where
  "step_ok cfg st st' =
     (\<exists>effs. trace st' = trace st @ effs
        \<and> nrand st \<le> nrand st'
        \<and> (\<forall>eff \<in> set effs. tokenOf eff = ''''
              \<or> (tokenOf eff = mint cfg (nrand st) \<and> nrand st < nrand st'))
        \<and> length (filter (\<lambda>eff. tokenOf eff \<noteq> '''') effs) \<le> 1
        \<and> (\<forall>k m'. memories st' k = Some m' \<longrightarrow>
              token m' = ''''
              \<or> (token m' = mint cfg (nrand st) \<and> nrand st < nrand st')
              \<or> (\<exists>m. memories st k = Some m \<and> token m' = token m)))"

text \<open>Ticks whose order of visit is one that \<open>range\<close> can take, and no \<open>quit\<close>.\<close>

fun is_quit :: "event \<Rightarrow> bool" where
  "is_quit (Request (quit ch)) = True"
| "is_quit ev = False"


fun tick_ok :: "'p world \<Rightarrow> event \<Rightarrow> bool" where
  "tick_ok st (Tick now ks) = range_order ks (memories st)"
| "tick_ok st ev = True"

fun ticks_ok :: "'p botCfg \<Rightarrow> 'p world \<Rightarrow> event list \<Rightarrow> bool" where
  "ticks_ok cfg st [] = True"
| "ticks_ok cfg st (ev # evs) =
     (\<not> is_quit ev \<and> tick_ok st ev \<and> ticks_ok cfg (handle cfg st ev) evs)"

section \<open>A small configuration to run the functions on\<close>

text \<open>A provider that keeps the blobs in a map and never fails.\<close>

definition memBrain :: "(string \<rightharpoonup> bytes) SimpleBrain" where
  "memBrain =
     \<lparr>Store = (\<lambda>p k v. (p(k \<mapsto> v), False)),
      Retrieve = (\<lambda>p k. (p, case p k of None \<Rightarrow> NotExists | Some v \<Rightarrow> Exists v))\<rparr>"

text \<open>A provider whose every call returns an error.\<close>

definition downBrain :: "(string \<rightharpoonup> bytes) SimpleBrain" where
  "downBrain =
     \<lparr>Store = (\<lambda>p k v. (p, True)),
      Retrieve = (\<lambda>p k. (p, RetrieveFailed))\<rparr>"

definition cfg0 :: "(string \<rightharpoonup> bytes) botCfg" where
  "cfg0 =
     \<lparr>brain = Some memBrain, encryptBrain = False,
      encrypt = (\<lambda>d k. Some (rev d)), decrypt = (\<lambda>d k. None),
      rand_Read = (\<lambda>n. word_of_nat n)\<rparr>"

definition world0 :: "(string \<rightharpoonup> bytes) world" where
  "world0 =
     \<lparr>memories = Map.empty, provider = Map.empty, nrand = 0,
      cryptKey_key = [], cryptKey_initializing = False, cryptKey_initialized = False,
      shortTermMemories = Map.empty, trace = []\<rparr>"

definition robot0 :: Robot where
  "robot0 = \<lparr>User = ''alice'', Channel = ''general'', NameSpace = ''ping'', nsExtension = ''''\<rparr>"

text \<open>Two callers asking for the same key read-write, and a record that the first holds.\<close>

definition alice :: checkOutRequest where
  "alice = \<lparr>key = ''ping:foo'', rw = True, reply = 1\<rparr>"

definition bob :: checkOutRequest where
  "bob = \<lparr>key = ''ping:foo'', rw = True, reply = 2\<rparr>"

definition held :: "memState \<Rightarrow> checkOutRequest list \<Rightarrow> (string \<rightharpoonup> bytes) world" where
  "held s ws =
     world0\<lparr>memories := [''ping:foo'' \<mapsto> \<lparr>state = s, token = ''00000000000000aa'', waiters = ws\<rparr>]\<rparr>"

text \<open>The world after both have asked, from the start of the loop.\<close>

definition contended :: "(string \<rightharpoonup> bytes) world" where
  "contended =
     runBrain cfg0 (start world0) [Request (checkOutBytes alice), Request (checkOutBytes bob)]"



section \<open>Properties\<close>

subsection \<open>What the storage functions leave alone\<close>

lemma getDatum_memories:
  "getDatum cfg (st\<lparr>memories := M\<rparr>) k b
   = (fst (getDatum cfg st k b), (snd (getDatum cfg st k b))\<lparr>memories := M\<rparr>)"
  by (simp add: getDatum_def Let_def storeDatum_def brainStore_def
           split: option.splits prod.splits retrieved.splits)

lemma getDatum_keeps_memories: "memories (snd (getDatum cfg st k b)) = memories st"
  by (simp add: getDatum_def Let_def storeDatum_def brainStore_def
           split: option.splits prod.splits retrieved.splits)

lemma getDatum_readonly_token: "fst (fst (getDatum cfg st k False)) = ''''"
  by (simp add: getDatum_def Let_def split: option.splits prod.splits retrieved.splits)

subsection \<open>Update with a stale token\<close>

text \<open>
  C2.  An update whose token is not the current token of the key's lock record is
  answered with \<open>DatumLockExpired\<close>, and that reply is all that happens: the world after
  it is the world before it with the reply added to the trace, so the provider was not
  called (no \<open>Stored\<close> effect, same provider state) and the lock table, with the record,
  its token and its waiters, is the same.
\<close>

theorem update_stale_token:
  "memories st k = Some m \<Longrightarrow> tok \<noteq> token m \<Longrightarrow>
   handle cfg st (Request (updateBytes k tok datum ch))
     = st\<lparr>trace := trace st @ [UpdateReplied ch DatumLockExpired]\<rparr>"
  by (simp add: updateOp_def)

theorem update_stale_token_witness:
  "memories (held newMemory []) ''ping:foo''
     = Some \<lparr>state = newMemory, token = ''00000000000000aa'', waiters = []\<rparr>
   \<and> handle cfg0 (held newMemory [])
        (Request (updateBytes ''ping:foo'' ''00000000000000bb'' [1, 2] 7))
     = (held newMemory [])\<lparr>trace := [UpdateReplied 7 DatumLockExpired]\<rparr>"
proof -
  have h: "memories (held newMemory []) ''ping:foo''
           = Some \<lparr>state = newMemory, token = ''00000000000000aa'', waiters = []\<rparr>"
    by (simp add: held_def world0_def)
  have t: "trace (held newMemory []) = []"
    by (simp add: held_def world0_def)
  show ?thesis
    using h t update_stale_token [OF h, of "''00000000000000bb''" cfg0 "[1, 2]" 7] by simp
qed

subsection \<open>Check-in with a stale token\<close>

text \<open>
  C3.  A check-in for a key that has no lock record, or with a token that is not the
  record's current token, changes nothing: the world after the request is the world
  before it (lock table, records, tokens, waiter queues, storage), and nothing is sent
  to anyone, so no error is reported.
\<close>

theorem checkIn_stale_noop:
  "memories st k = None \<or> (\<exists>m. memories st k = Some m \<and> tok \<noteq> token m)
   \<Longrightarrow> handle cfg st (Request (checkInBytes k tok)) = st"
  by (auto simp: checkInOp_def)

theorem checkIn_stale_noop_witness:
  "(\<exists>m. memories (held seen [bob]) ''ping:foo'' = Some m \<and> ''00000000000000bb'' \<noteq> token m)
   \<and> memories (held seen [bob]) ''ping:bar'' = None
   \<and> handle cfg0 (held seen [bob]) (Request (checkInBytes ''ping:foo'' ''00000000000000bb''))
       = held seen [bob]
   \<and> handle cfg0 (held seen [bob]) (Request (checkInBytes ''ping:bar'' ''00000000000000aa''))
       = held seen [bob]"
proof -
  have h1: "\<exists>m. memories (held seen [bob]) ''ping:foo'' = Some m \<and> ''00000000000000bb'' \<noteq> token m"
    by (simp add: held_def world0_def)
  have h2: "memories (held seen [bob]) ''ping:bar'' = None"
    by (simp add: held_def world0_def)
  show ?thesis
    using h1 h2
      checkIn_stale_noop [of "held seen [bob]" "''ping:foo''" "''00000000000000bb''" cfg0]
      checkIn_stale_noop [of "held seen [bob]" "''ping:bar''" "''00000000000000aa''" cfg0]
    by blast
qed

subsection \<open>Read-only check-out\<close>

text \<open>
  C6.  A check-out that is not read-write does not depend on the lock table and does not
  change it: in any world, whatever table \<open>M\<close> is put in place of the current one, the
  request does the same and leaves \<open>M\<close> as it is (so no record is created, read or
  changed, and the caller is never queued, also while the key is locked).  What it does
  is \<open>getDatum\<close> with \<open>rw = false\<close> on the storage, followed at once by the reply to the
  caller, whose token is empty.
\<close>

theorem readonly_checkout_bypasses_locks:
  assumes ro: "\<not> rw creq"
  shows "(\<forall>M. handle cfg (st\<lparr>memories := M\<rparr>) (Request (checkOutBytes creq))
              = (handle cfg st (Request (checkOutBytes creq)))\<lparr>memories := M\<rparr>)
   \<and> memories (handle cfg st (Request (checkOutBytes creq))) = memories st
   \<and> (case getDatum cfg st (key creq) False of
        ((lt, d, e, r), st1) \<Rightarrow>
          lt = ''''
          \<and> handle cfg st (Request (checkOutBytes creq))
              = st1\<lparr>trace := trace st1 @ [CheckOutReplied creq (lt, d, e, r)]\<rparr>)"
proof -
  obtain lt d e r st1 where g: "getDatum cfg st (key creq) False = ((lt, d, e, r), st1)"
    by (metis prod.exhaust)
  have lt: "lt = ''''"
    using getDatum_readonly_token [of cfg st "key creq"] g by simp
  have m1: "memories st1 = memories st"
    using getDatum_keeps_memories [of cfg st "key creq" False] g by simp
  have h: "handle cfg st (Request (checkOutBytes creq))
           = st1\<lparr>trace := trace st1 @ [CheckOutReplied creq (lt, d, e, r)]\<rparr>"
    using ro g by (simp add: checkOutOp_def split: option.splits)
  have frame: "handle cfg (st\<lparr>memories := M\<rparr>) (Request (checkOutBytes creq))
               = (handle cfg st (Request (checkOutBytes creq)))\<lparr>memories := M\<rparr>" for M
    using ro by (simp add: checkOutOp_def getDatum_memories split: option.splits prod.splits)
  show ?thesis
    using g lt m1 h frame by simp
qed

theorem readonly_checkout_bypasses_locks_witness:
  "\<not> rw (bob\<lparr>rw := False\<rparr>)
   \<and> memories (handle cfg0 (held newMemory [alice])
        (Request (checkOutBytes (bob\<lparr>rw := False\<rparr>))))
       = memories (held newMemory [alice])
   \<and> trace (handle cfg0 (held newMemory [alice])
        (Request (checkOutBytes (bob\<lparr>rw := False\<rparr>))))
       = [Retrieved ''ping:foo'', CheckOutReplied (bob\<lparr>rw := False\<rparr>) ('''', None, False, Ok)]"
proof -
  have ro: "\<not> rw (bob\<lparr>rw := False\<rparr>)" by simp
  have g: "getDatum cfg0 (held newMemory [alice]) (key (bob\<lparr>rw := False\<rparr>)) False
           = (('''', None, False, Ok),
              (held newMemory [alice])\<lparr>provider := Map.empty, trace := [Retrieved ''ping:foo'']\<rparr>)"
    by (simp add: getDatum_def keyRe_MatchString_def wordChar_def cfg0_def memBrain_def
                  held_def world0_def bob_def)
  show ?thesis
    using ro g readonly_checkout_bypasses_locks [OF ro, of cfg0 "held newMemory [alice]"]
    by simp
qed

lemma storeDatum_keeps:
  "shortTermMemories (snd (storeDatum cfg st k d)) = shortTermMemories st"
  "memories (snd (storeDatum cfg st k d)) = memories st"
  "nrand (snd (storeDatum cfg st k d)) = nrand st"
  by (simp_all add: storeDatum_def brainStore_def split: option.splits prod.splits)

lemma getDatum_keeps_stm:
  "shortTermMemories (snd (getDatum cfg st k b)) = shortTermMemories st"
  by (simp add: getDatum_def Let_def storeDatum_keeps
           split: option.splits prod.splits retrieved.splits)

lemma replyToWaiter_keeps_stm:
  "shortTermMemories (replyToWaiter cfg st k) = shortTermMemories st"
proof (cases "memories st k")
  case None
  then show ?thesis by (simp add: replyToWaiter_def)
next
  case (Some m)
  show ?thesis
  proof (cases "waiters m")
    case Nil
    with Some show ?thesis by (simp add: replyToWaiter_def)
  next
    case (Cons w ws)
    obtain rep st1 where g: "getDatum cfg st (key w) True = (rep, st1)"
      by (metis prod.exhaust)
    have "shortTermMemories st1 = shortTermMemories st"
      using getDatum_keeps_stm [of cfg st "key w" True] g by simp
    with Some Cons g show ?thesis
      by (simp add: replyToWaiter_def split: prod.splits)
  qed
qed

lemma age_keeps_stm: "shortTermMemories (age cfg st k) = shortTermMemories st"
  by (simp add: age_def replyToWaiter_keeps_stm split: option.splits memState.splits)

lemma foldl_age_keeps_stm:
  "shortTermMemories (foldl (age cfg) st ks) = shortTermMemories st"
  by (induction ks arbitrary: st) (simp_all add: age_keeps_stm)

subsection \<open>Short-term memories\<close>

text \<open>
  C8.  \<open>Recall\<close> after \<open>Remember\<close> for the same key, user and channel gives the value
  remembered, and the empty string when the map has no entry for the triple.
  \<open>Remember\<close> writes the value with the time of the call over whatever was there and
  touches no other triple.  A tick leaves exactly the sweep of the map: an entry goes
  when \<open>now - timestamp\<close> is more than \<open>shortTermDuration\<close>, seven minutes, and stays as
  it was otherwise.  So \<open>Recall\<close> after the sweep still gives the value of an entry that
  is at most seven minutes old, and the empty string for an older one.
\<close>

theorem short_term_memory:
  "Recall r (Remember r now stm k v) k = v
   \<and> (stm (memoryContext k (User r) (Channel r)) = None \<longrightarrow> Recall r stm k = '''')
   \<and> Remember r now stm k v (memoryContext k (User r) (Channel r))
       = Some \<lparr>memory = v, timestamp = now\<rparr>
   \<and> (\<forall>c. c \<noteq> memoryContext k (User r) (Channel r) \<longrightarrow> Remember r now stm k v c = stm c)
   \<and> shortTermMemories (handle cfg st (Tick now ks)) = sweep now (shortTermMemories st)
   \<and> shortTermDuration = 7 * 60 * 1000000000
   \<and> (\<forall>c e. stm c = Some e \<longrightarrow>
         sweep now stm c = (if now - timestamp e > shortTermDuration then None else Some e))
   \<and> (\<forall>c. stm c = None \<longrightarrow> sweep now stm c = None)
   \<and> (\<forall>e. stm (memoryContext k (User r) (Channel r)) = Some e
            \<and> now - timestamp e \<le> shortTermDuration
         \<longrightarrow> Recall r (sweep now stm) k = memory e \<and> Recall r stm k = memory e)
   \<and> (\<forall>e. stm (memoryContext k (User r) (Channel r)) = Some e
            \<and> now - timestamp e > shortTermDuration
         \<longrightarrow> Recall r (sweep now stm) k = '''')"
  by (simp add: Recall_def Remember_def sweep_def processMemories_def foldl_age_keeps_stm
        shortTermDuration_def)

theorem short_term_memory_witness:
  "Map.empty (memoryContext ''server'' (User robot0) (Channel robot0)) = None
   \<and> Recall robot0 Map.empty ''server'' = ''''
   \<and> Remember robot0 5 Map.empty ''server'' ''web1''
        (memoryContext ''server'' (User robot0) (Channel robot0))
       = Some \<lparr>memory = ''web1'', timestamp = 5\<rparr>
   \<and> 420000000005 - timestamp \<lparr>memory = ''web1'', timestamp = 5\<rparr> \<le> shortTermDuration
   \<and> Recall robot0 (sweep 420000000005 (Remember robot0 5 Map.empty ''server'' ''web1'')) ''server''
       = ''web1''
   \<and> 420000000006 - timestamp \<lparr>memory = ''web1'', timestamp = 5\<rparr> > shortTermDuration
   \<and> Recall robot0 (sweep 420000000006 (Remember robot0 5 Map.empty ''server'' ''web1'')) ''server''
       = ''''
   \<and> memoryContext ''server'' ''bob'' ''general'' \<noteq> memoryContext ''server'' (User robot0) (Channel robot0)
   \<and> Remember robot0 5 Map.empty ''server'' ''web1'' (memoryContext ''server'' ''bob'' ''general'')
       = None"
proof -
  let ?stm = "Remember robot0 5 Map.empty ''server'' ''web1''"
  have e: "?stm (memoryContext ''server'' (User robot0) (Channel robot0))
           = Some \<lparr>memory = ''web1'', timestamp = 5\<rparr>"
    by (simp add: Remember_def)
  have d: "shortTermDuration = 420000000000"
    by (simp add: shortTermDuration_def)
  have u: "memoryContext ''server'' ''bob'' ''general''
           \<noteq> memoryContext ''server'' (User robot0) (Channel robot0)"
    by (simp add: robot0_def)
  show ?thesis
    using e d u
      short_term_memory [of robot0 5 Map.empty "''server''" "''web1''" cfg0 world0 "[]"]
      short_term_memory [of robot0 420000000005 ?stm "''server''" "''web1''" cfg0 world0 "[]"]
      short_term_memory [of robot0 420000000006 ?stm "''server''" "''web1''" cfg0 world0 "[]"]
    by simp
qed

subsection \<open>Update with the empty token\<close>

text \<open>
  C10.  \<open>update\<close> with the empty lock token returns \<open>Ok\<close> at once, for every key and
  datum; neither it nor \<open>UpdateDatum\<close> then sends anything to the brain, so the loop
  gets no request from the call and its world (storage and lock table) stays as it is.
  Through \<open>UpdateDatum\<close> the caller sees \<open>Ok\<close> as well whenever the key has no colon and
  the datum can be marshalled.
\<close>

theorem update_empty_token:
  "update d '''' datum ch = Return Ok
   \<and> sends (update d '''' datum ch) = []
   \<and> sends (UpdateDatum marshal r k '''' v ch) = []
   \<and> runBrain cfg st (map Request (sends (update d '''' datum ch))) = st
   \<and> runBrain cfg st (map Request (sends (UpdateDatum marshal r k '''' v ch))) = st
   \<and> (CHR '':'' \<notin> set k \<and> marshal v \<noteq> None \<longrightarrow> UpdateDatum marshal r k '''' v ch = Return Ok)"
  by (auto simp: update_def UpdateDatum_def updateDatum_def Let_def split: option.splits)

theorem update_empty_token_witness:
  "CHR '':'' \<notin> set ''foo'' \<and> Some [1, 2 :: 8 word] \<noteq> None
   \<and> UpdateDatum (\<lambda>v. Some v) robot0 ''foo'' '''' [1, 2] 7 = Return Ok
   \<and> update ''ping:foo'' '''' [1, 2] 7 = Return Ok
   \<and> runBrain cfg0 (held newMemory [bob])
        (map Request (sends (UpdateDatum (\<lambda>v. Some v) robot0 ''foo'' '''' [1, 2] 7)))
       = held newMemory [bob]"
  using update_empty_token [where d = "''ping:foo''" and datum = "[1, 2]" and ch = 7
      and marshal = "\<lambda>v. Some v" and r = robot0 and k = "''foo''" and v = "[1, 2]"
      and cfg = cfg0 and st = "held newMemory [bob]"]
  by simp

subsection \<open>A blob that does not decrypt\<close>

text \<open>
  C9.  With encryption on and initialized, when the provider has a blob for the key and
  \<open>decrypt\<close> fails on it, \<open>getDatum\<close> succeeds: it returns the stored bytes as they are,
  \<open>exists\<close> true and \<open>Ok\<close> (with the empty token for a read-only request and the token
  just minted for a read-write one).  It also calls \<open>storeDatum\<close> on those bytes on the
  spot, and every \<open>storeDatum\<close> for the key in an initialized world hands the provider
  the encrypted blob, so the next store writes it encrypted.
\<close>

theorem decrypt_failure_is_plaintext:
  assumes "brain cfg = Some b" and "encryptBrain cfg"
    and "cryptKey_initialized st" and "\<not> cryptKey_initializing st"
    and "keyRe_MatchString dkey"
    and "Retrieve b (provider st) dkey = (p', Exists db)"
    and "decrypt cfg db (cryptKey_key st) = None"
  shows "fst (getDatum cfg st dkey False) = ('''', Some db, True, Ok)
    \<and> fst (getDatum cfg st dkey True) = (mint cfg (nrand st), Some db, True, Ok)
    \<and> snd (getDatum cfg st dkey False)
        = snd (storeDatum cfg (st\<lparr>provider := p', trace := trace st @ [Retrieved dkey]\<rparr>) dkey db)
    \<and> (\<forall>st' datum enc. cryptKey_initialized st' \<and> encrypt cfg datum (cryptKey_key st') = Some enc
          \<longrightarrow> storeDatum cfg st' dkey datum = brainStore b st' dkey enc
              \<and> trace (snd (storeDatum cfg st' dkey datum)) = trace st' @ [Stored dkey enc])"
  using assms
  by (simp add: getDatum_def storeDatum_def brainStore_def Let_def split: prod.splits)

theorem decrypt_failure_is_plaintext_witness:
  "fst (getDatum (cfg0\<lparr>encryptBrain := True\<rparr>)
          (world0\<lparr>provider := [''ping:foo'' \<mapsto> [1, 2, 3]], cryptKey_initialized := True\<rparr>)
          ''ping:foo'' False)
     = ('''', Some [1, 2, 3], True, Ok)
   \<and> trace (snd (getDatum (cfg0\<lparr>encryptBrain := True\<rparr>)
          (world0\<lparr>provider := [''ping:foo'' \<mapsto> [1, 2, 3]], cryptKey_initialized := True\<rparr>)
          ''ping:foo'' False))
     = [Retrieved ''ping:foo'', Stored ''ping:foo'' [3, 2, 1]]"
proof -
  let ?cfg = "cfg0\<lparr>encryptBrain := True\<rparr>"
  let ?st = "world0\<lparr>provider := [''ping:foo'' \<mapsto> [1, 2, 3]], cryptKey_initialized := True\<rparr>"
  have a1: "brain ?cfg = Some memBrain" by (simp add: cfg0_def)
  have a2: "encryptBrain ?cfg" by simp
  have a3: "cryptKey_initialized ?st" by simp
  have a4: "\<not> cryptKey_initializing ?st" by (simp add: world0_def)
  have a5: "keyRe_MatchString ''ping:foo''" by (simp add: keyRe_MatchString_def wordChar_def)
  have a6: "Retrieve memBrain (provider ?st) ''ping:foo''
            = ([''ping:foo'' \<mapsto> [1, 2, 3]], Exists [1, 2, 3])"
    by (simp add: memBrain_def)
  have a7: "decrypt ?cfg [1, 2, 3] (cryptKey_key ?st) = None" by (simp add: cfg0_def)
  have e: "encrypt ?cfg [1, 2, 3] (cryptKey_key ?st) = Some [3, 2, 1]" by (simp add: cfg0_def)
  have t: "trace ?st = []" by (simp add: world0_def)
  note th = decrypt_failure_is_plaintext [OF a1 a2 a3 a4 a5 a6 a7]
  have s: "trace (snd (storeDatum ?cfg
                (?st\<lparr>provider := [''ping:foo'' \<mapsto> [1, 2, 3]],
                      trace := trace ?st @ [Retrieved ''ping:foo'']\<rparr>) ''ping:foo'' [1, 2, 3]))
           = [Retrieved ''ping:foo'', Stored ''ping:foo'' [3, 2, 1]]"
    using e t th by (simp add: storeDatum_def brainStore_def cfg0_def memBrain_def)
  show ?thesis
    using th s by simp
qed

subsection \<open>Keys with the reserved separator\<close>

lemma keyRe_MatchString_colon: "keyRe_MatchString (a @ CHR '':'' # b)"
  by (simp add: keyRe_MatchString_def list_ex_iff)

lemma sends_map_call: "sends (map_call f c) = sends c"
  by (cases c) simp_all

text \<open>
  C7, as the claim states it, fails for \<open>CheckinDatum\<close>: the function has no result, and
  for a key with a colon it returns without a word, so no invalid-key error reaches its
  caller.
\<close>

theorem checkin_colon_key_counterexample:
  "CHR '':'' \<in> set ''a:b''
   \<and> CheckinDatum robot0 ''a:b'' ''00000000000000aa'' = Return ()
   \<and> returned checkinCode (CheckinDatum robot0 ''a:b'' ''00000000000000aa'')
       \<noteq> Some InvalidDatumKey"
  by (simp add: CheckinDatum_def checkinCode_def)

text \<open>
  C7, amended.  For a key that contains a colon, \<open>CheckoutDatum\<close> and \<open>UpdateDatum\<close>
  return \<open>InvalidDatumKey\<close>, \<open>CheckinDatum\<close> just returns, and none of the three sends a
  request to the brain.  For a key without a colon, \<open>CheckoutDatum\<close> sends one check-out
  request, and \<open>CheckinDatum\<close> and \<open>UpdateDatum\<close> send their request unless the token is
  empty or the datum cannot be marshalled; every request sent carries the key prefixed
  with the task's namespace and, when there is one, the namespace extension.
\<close>

theorem facade_key_validation:
  "(CHR '':'' \<in> set k \<longrightarrow>
      CheckoutDatum unmarshal r k rw' ch = Return (Some ('''', False, InvalidDatumKey, None))
      \<and> returned checkoutCode (CheckoutDatum unmarshal r k rw' ch) = Some InvalidDatumKey
      \<and> UpdateDatum marshal r k lt v ch = Return InvalidDatumKey
      \<and> returned updateCode (UpdateDatum marshal r k lt v ch) = Some InvalidDatumKey
      \<and> CheckinDatum r k lt = Return ()
      \<and> sends (CheckoutDatum unmarshal r k rw' ch) = []
      \<and> sends (UpdateDatum marshal r k lt v ch) = []
      \<and> sends (CheckinDatum r k lt) = [])
   \<and> (CHR '':'' \<notin> set k \<longrightarrow>
      sends (CheckoutDatum unmarshal r k rw' ch)
        = [checkOutBytes \<lparr>key = nsKey r k, rw = rw', reply = ch\<rparr>]
      \<and> sends (CheckinDatum r k lt)
        = (if lt = '''' then [] else [checkInBytes (nsKey r k) lt])
      \<and> sends (UpdateDatum marshal r k lt v ch)
        = (case marshal v of
             None \<Rightarrow> []
           | Some dbytes \<Rightarrow> if lt = '''' then [] else [updateBytes (nsKey r k) lt dbytes ch]))
   \<and> nsKey r k = (if nsExtension r = '''' then NameSpace r @ '':'' @ k
                  else NameSpace r @ '':'' @ nsExtension r @ '':'' @ k)"
proof -
  have bad: "CHR '':'' \<in> set k \<Longrightarrow>
      CheckoutDatum unmarshal r k rw' ch = Return (Some ('''', False, InvalidDatumKey, None))
      \<and> UpdateDatum marshal r k lt v ch = Return InvalidDatumKey
      \<and> CheckinDatum r k lt = Return ()"
    by (simp add: CheckoutDatum_def UpdateDatum_def CheckinDatum_def)
  have out: "CHR '':'' \<notin> set k \<Longrightarrow>
      sends (CheckoutDatum unmarshal r k rw' ch)
        = [checkOutBytes \<lparr>key = nsKey r k, rw = rw', reply = ch\<rparr>]"
    by (simp add: CheckoutDatum_def checkoutDatum_def sends_map_call checkout_def nsKey_def
          Let_def keyRe_MatchString_colon)
  have inn: "CHR '':'' \<notin> set k \<Longrightarrow>
      sends (CheckinDatum r k lt) = (if lt = '''' then [] else [checkInBytes (nsKey r k) lt])"
    by (simp add: CheckinDatum_def checkinDatum_def nsKey_def Let_def)
  have upd: "CHR '':'' \<notin> set k \<Longrightarrow>
      sends (UpdateDatum marshal r k lt v ch)
        = (case marshal v of
             None \<Rightarrow> []
           | Some dbytes \<Rightarrow> if lt = '''' then [] else [updateBytes (nsKey r k) lt dbytes ch])"
    by (simp add: UpdateDatum_def updateDatum_def update_def nsKey_def Let_def
          split: option.splits)
  show ?thesis
    using bad out inn upd by (simp add: checkoutCode_def updateCode_def nsKey_def)
qed

theorem facade_key_validation_witness:
  "CHR '':'' \<in> set ''a:b'' \<and> CHR '':'' \<notin> set ''foo''
   \<and> CheckoutDatum (\<lambda>b. (Some b, False)) robot0 ''a:b'' True 7
       = Return (Some ('''', False, InvalidDatumKey, None))
   \<and> UpdateDatum (\<lambda>v. Some v) robot0 ''a:b'' ''00000000000000aa'' [1, 2] 8
       = Return InvalidDatumKey
   \<and> sends (CheckinDatum robot0 ''a:b'' ''00000000000000aa'') = []
   \<and> sends (CheckoutDatum (\<lambda>b. (Some b, False)) (robot0\<lparr>nsExtension := ''repo''\<rparr>) ''foo'' True 7)
       = [checkOutBytes \<lparr>key = ''ping:repo:foo'', rw = True, reply = 7\<rparr>]
   \<and> sends (CheckinDatum robot0 ''foo'' ''00000000000000aa'')
       = [checkInBytes ''ping:foo'' ''00000000000000aa'']
   \<and> sends (UpdateDatum (\<lambda>v. Some v) robot0 ''foo'' ''00000000000000aa'' [1, 2] 8)
       = [updateBytes ''ping:foo'' ''00000000000000aa'' [1, 2] 8]"
proof -
  have n1: "nsKey (robot0\<lparr>nsExtension := ''repo''\<rparr>) ''foo'' = ''ping:repo:foo''"
    by (simp add: nsKey_def robot0_def)
  have n2: "nsKey robot0 ''foo'' = ''ping:foo''"
    by (simp add: nsKey_def robot0_def)
  show ?thesis
    using n1 n2
      facade_key_validation [where k = "''a:b''" and unmarshal = "\<lambda>b. (Some b, False)"
        and r = robot0 and rw' = True and ch = 7 and marshal = "\<lambda>v. Some v"
        and lt = "''00000000000000aa''" and v = "[1, 2]"]
      facade_key_validation [where k = "''a:b''" and unmarshal = "\<lambda>b. (Some b, False)"
        and r = robot0 and rw' = True and ch = 8 and marshal = "\<lambda>v. Some v"
        and lt = "''00000000000000aa''" and v = "[1, 2]"]
      facade_key_validation [where k = "''foo''" and unmarshal = "\<lambda>b. (Some b, False)"
        and r = "robot0\<lparr>nsExtension := ''repo''\<rparr>" and rw' = True and ch = 7
        and marshal = "\<lambda>v. Some v" and lt = "''00000000000000aa''" and v = "[1, 2]"]
      facade_key_validation [where k = "''foo''" and unmarshal = "\<lambda>b. (Some b, False)"
        and r = robot0 and rw' = True and ch = 8 and marshal = "\<lambda>v. Some v"
        and lt = "''00000000000000aa''" and v = "[1, 2]"]
    by simp
qed

subsection \<open>What \<open>getDatum\<close> does to the world\<close>

lemma storeDatum_trace:
  "\<exists>effs. trace (snd (storeDatum cfg st k d)) = trace st @ effs \<and> list_all storageEffect effs"
  by (simp add: storeDatum_def brainStore_def split: option.splits prod.splits)

lemma storeDatum_trace_after:
  "\<exists>effs. trace (snd (storeDatum cfg (st\<lparr>provider := p, trace := t @ [e]\<rparr>) k d)) = t @ e # effs
          \<and> list_all storageEffect effs"
  using storeDatum_trace [of cfg "st\<lparr>provider := p, trace := t @ [e]\<rparr>" k d] by auto

lemma getDatum_trace:
  "\<exists>effs. trace (snd (getDatum cfg st k b)) = trace st @ effs \<and> list_all storageEffect effs"
proof -
  have s: "\<exists>effs. trace (snd (storeDatum cfg (st'\<lparr>provider := p, trace := t @ [Retrieved k']\<rparr>) k' d))
             = t @ effs \<and> list_all storageEffect effs" for st' :: "'a world" and p d t k'
    using storeDatum_trace_after [where cfg = cfg and st = st' and p = p and t = t
        and e = "Retrieved k'" and k = k' and d = d]
    by auto
  show ?thesis
    by (simp add: getDatum_def Let_def s split: option.splits prod.splits retrieved.splits)
qed

lemma getDatum_fetches:
  assumes "keyRe_MatchString k" and "brain cfg \<noteq> None"
  shows "\<exists>effs. trace (snd (getDatum cfg st k b)) = trace st @ Retrieved k # effs
           \<and> list_all storageEffect effs"
proof -
  have s: "\<exists>effs. trace (snd (storeDatum cfg (st'\<lparr>provider := p, trace := t @ [Retrieved k']\<rparr>) k' d))
             = t @ Retrieved k' # effs \<and> list_all storageEffect effs"
    for st' :: "'a world" and p d t k'
    using storeDatum_trace_after [where cfg = cfg and st = st' and p = p and t = t
        and e = "Retrieved k'" and k = k' and d = d]
    by auto
  show ?thesis
    using assms
    by (auto simp add: getDatum_def Let_def s split: option.splits prod.splits retrieved.splits)
qed

lemma getDatum_nrand:
  "nrand (snd (getDatum cfg st k b))
   = (if b \<and> keyRe_MatchString k \<and> brain cfg \<noteq> None then Suc (nrand st) else nrand st)"
  by (simp add: getDatum_def Let_def storeDatum_keeps
           split: option.splits prod.splits retrieved.splits)

lemma getDatum_token:
  "fst (fst (getDatum cfg st k b)) = ''''
   \<or> (b \<and> keyRe_MatchString k \<and> brain cfg \<noteq> None
      \<and> fst (fst (getDatum cfg st k b)) = mint cfg (nrand st))"
  by (simp add: getDatum_def Let_def split: option.splits prod.splits retrieved.splits)

lemma getDatum_Ok:
  assumes "snd (snd (snd (fst (getDatum cfg st k b)))) = Ok"
  shows "keyRe_MatchString k \<and> brain cfg \<noteq> None
   \<and> fst (fst (getDatum cfg st k b)) = (if b then mint cfg (nrand st) else '''')"
proof (cases "keyRe_MatchString k")
  case False
  with assms show ?thesis by (simp add: getDatum_def)
next
  case True
  show ?thesis
  proof (cases "brain cfg")
    case None
    with True assms show ?thesis by (simp add: getDatum_def)
  next
    case (Some br)
    obtain p res where r: "Retrieve br (provider st) k = (p, res)"
      by (metis prod.exhaust)
    show ?thesis
      using True Some r assms
      by (cases res; cases b)
         (simp_all add: getDatum_def Let_def split: option.splits if_splits)
  qed
qed

lemma getDatum_not_Ok:
  assumes "snd (snd (snd (fst (getDatum cfg st k b)))) \<noteq> Ok"
  shows "fst (fst (getDatum cfg st k b)) = ''''"
proof (cases "keyRe_MatchString k")
  case False
  then show ?thesis by (simp add: getDatum_def)
next
  case True
  show ?thesis
  proof (cases "brain cfg")
    case None
    with True show ?thesis by (simp add: getDatum_def)
  next
    case (Some br)
    obtain p res where r: "Retrieve br (provider st) k = (p, res)"
      by (metis prod.exhaust)
    show ?thesis
      using True Some r assms
      by (cases res; cases b)
         (simp_all add: getDatum_def Let_def split: option.splits if_splits)
  qed
qed

subsection \<open>Serving the head of the queue\<close>

lemma replyToWaiter_serves:
  assumes "memories st k = Some m" and "waiters m = w # ws"
  shows "replyToWaiter cfg st k
         = (snd (getDatum cfg st (key w) True))
             \<lparr>memories := (memories st)
                (k \<mapsto> \<lparr>state = newMemory, token = fst (fst (getDatum cfg st (key w) True)),
                       waiters = ws\<rparr>),
              trace := trace (snd (getDatum cfg st (key w) True))
                       @ [CheckOutReplied w (fst (getDatum cfg st (key w) True))]\<rparr>"
proof -
  obtain lt d e r st1 where g: "getDatum cfg st (key w) True = ((lt, d, e, r), st1)"
    by (metis prod.exhaust)
  have "memories st1 = memories st"
    using getDatum_keeps_memories [of cfg st "key w" True] g by simp
  with assms g show ?thesis
    by (simp add: replyToWaiter_def)
qed

lemma replyToWaiter_other:
  "k' \<noteq> k \<Longrightarrow> memories (replyToWaiter cfg st k) k' = memories st k'"
  by (simp add: replyToWaiter_def getDatum_keeps_memories split: option.splits list.splits prod.splits)
     (metis getDatum_keeps_memories snd_conv)

lemma replyToWaiter_trace:
  "\<exists>effs. trace (replyToWaiter cfg st k) = trace st @ effs"
proof (cases "memories st k")
  case None
  then show ?thesis by (simp add: replyToWaiter_def)
next
  case (Some m)
  show ?thesis
  proof (cases "waiters m")
    case Nil
    with Some show ?thesis by (simp add: replyToWaiter_def)
  next
    case (Cons w ws)
    obtain effs where "trace (snd (getDatum cfg st (key w) True)) = trace st @ effs"
      using getDatum_trace [of cfg st "key w" True] by blast
    then show ?thesis
      by (simp add: replyToWaiter_serves [OF Some Cons])
  qed
qed

lemma replyToWaiter_dom:
  "dom (memories (replyToWaiter cfg st k)) = dom (memories st)"
proof (cases "memories st k")
  case None
  then show ?thesis by (simp add: replyToWaiter_def)
next
  case (Some m)
  show ?thesis
  proof (cases "waiters m")
    case Nil
    with Some show ?thesis by (simp add: replyToWaiter_def)
  next
    case (Cons w ws)
    show ?thesis
      using Some by (auto simp add: replyToWaiter_serves [OF Some Cons])
  qed
qed

subsection \<open>The body of the tick, key by key\<close>

lemma age_other: "k' \<noteq> k \<Longrightarrow> memories (age cfg st k) k' = memories st k'"
  by (simp add: age_def replyToWaiter_other split: option.splits memState.splits)

lemma age_trace: "\<exists>effs. trace (age cfg st k) = trace st @ effs"
  using replyToWaiter_trace [of cfg st k]
  by (simp add: age_def split: option.splits memState.splits)

lemma age_dom: "dom (memories (age cfg st k)) = dom (memories st)"
  by (auto simp add: age_def replyToWaiter_dom split: option.splits memState.splits)

lemma foldl_age_other:
  "k \<notin> set ks \<Longrightarrow> memories (foldl (age cfg) st ks) k = memories st k"
  by (induction ks arbitrary: st) (simp_all add: age_other)

lemma foldl_age_trace: "\<exists>effs. trace (foldl (age cfg) st ks) = trace st @ effs"
proof (induction ks arbitrary: st)
  case Nil
  then show ?case by simp
next
  case (Cons k ks)
  obtain e1 where "trace (age cfg st k) = trace st @ e1"
    using age_trace by blast
  moreover obtain e2 where "trace (foldl (age cfg) (age cfg st k) ks) = trace (age cfg st k) @ e2"
    using Cons.IH by blast
  ultimately show ?case by simp
qed

lemma foldl_age_dom: "dom (memories (foldl (age cfg) st ks)) = dom (memories st)"
  by (induction ks arbitrary: st) (simp_all add: age_dom)

subsection \<open>The aging tick\<close>

text \<open>
  C5.  A tick visits every record once, in some order \<open>before @ k # after\<close>.  When it
  comes to the record of \<open>k\<close>, that record is still as it was before the tick, and what
  the tick leaves under \<open>k\<close> is what the visit made of it: a record in state
  \<open>newMemory\<close> is now \<open>seen\<close>; a \<open>seen\<close> record without waiters is now \<open>available\<close>;
  for a \<open>seen\<close> record with waiters the visit is the very step a check-in with the
  record's token would be at that moment: the head waiter is taken off the queue,
  \<open>getDatum\<close> is run read-write for it, the record gets state \<open>newMemory\<close> and the
  token of that reply, and the reply is sent to that waiter; an \<open>available\<close> record is
  left alone.  No record is added or removed.
\<close>

theorem tick_ages_every_record:
  assumes ro: "range_order ks (memories st)" and rec: "memories st k = Some m"
  shows "\<exists>before after. ks = before @ k # after \<and>
     (let st1 = foldl (age cfg) (st\<lparr>shortTermMemories := sweep now (shortTermMemories st)\<rparr>) before;
          st' = handle cfg st (Tick now ks)
      in memories st1 k = Some m
         \<and> memories st' k = memories (age cfg st1 k) k
         \<and> dom (memories st') = dom (memories st)
         \<and> (state m = newMemory \<longrightarrow> memories st' k = Some (m\<lparr>state := seen\<rparr>))
         \<and> (state m = seen \<and> waiters m = [] \<longrightarrow> memories st' k = Some (m\<lparr>state := available\<rparr>))
         \<and> (state m = available \<longrightarrow> memories st' k = Some m)
         \<and> (state m = seen \<and> waiters m \<noteq> [] \<longrightarrow>
              age cfg st1 k = handle cfg st1 (Request (checkInBytes k (token m)))
              \<and> (case getDatum cfg st1 (key (hd (waiters m))) True of
                    ((lt, d, e, r), st2) \<Rightarrow>
                      memories st' k
                        = Some \<lparr>state = newMemory, token = lt, waiters = tl (waiters m)\<rparr>
                      \<and> trace (age cfg st1 k)
                        = trace st2 @ [CheckOutReplied (hd (waiters m)) (lt, d, e, r)]
                      \<and> CheckOutReplied (hd (waiters m)) (lt, d, e, r) \<in> set (trace st'))))"
proof -
  let ?st0 = "st\<lparr>shortTermMemories := sweep now (shortTermMemories st)\<rparr>"
  have "k \<in> set ks"
    using ro rec by (auto simp: range_order_def)
  then obtain before after where ks: "ks = before @ k # after"
    by (meson split_list)
  have d: "k \<notin> set before" "k \<notin> set after"
    using ro ks by (auto simp: range_order_def)
  let ?st1 = "foldl (age cfg) ?st0 before"
  let ?st' = "handle cfg st (Tick now ks)"
  have st': "?st' = foldl (age cfg) (age cfg ?st1 k) after"
    by (simp add: processMemories_def ks)
  have m1: "memories ?st1 k = Some m"
    using foldl_age_other [OF d(1), of cfg ?st0] rec by simp
  have m': "memories ?st' k = memories (age cfg ?st1 k) k"
    using foldl_age_other [OF d(2), of cfg "age cfg ?st1 k"] st' by simp
  have dm: "dom (memories ?st') = dom (memories st)"
    by (simp add: processMemories_def foldl_age_dom)
  have n: "state m = newMemory \<Longrightarrow> memories ?st' k = Some (m\<lparr>state := seen\<rparr>)"
    using m1 m' by (simp add: age_def)
  have s0: "state m = seen \<Longrightarrow> waiters m = [] \<Longrightarrow> memories ?st' k = Some (m\<lparr>state := available\<rparr>)"
    using m1 m' by (simp add: age_def)
  have a: "state m = available \<Longrightarrow> memories ?st' k = Some m"
    using m1 m' by (simp add: age_def)
  have s1: "age cfg ?st1 k = handle cfg ?st1 (Request (checkInBytes k (token m)))
            \<and> (case getDatum cfg ?st1 (key (hd (waiters m))) True of
                  ((lt, d, e, r), st2) \<Rightarrow>
                    memories ?st' k
                      = Some \<lparr>state = newMemory, token = lt, waiters = tl (waiters m)\<rparr>
                    \<and> trace (age cfg ?st1 k)
                      = trace st2 @ [CheckOutReplied (hd (waiters m)) (lt, d, e, r)]
                    \<and> CheckOutReplied (hd (waiters m)) (lt, d, e, r) \<in> set (trace ?st'))"
    if sn: "state m = seen" and wn: "waiters m \<noteq> []"
  proof -
    obtain w ws where w: "waiters m = w # ws"
      using wn by (cases "waiters m") auto
    obtain lt d' e r st2 where g: "getDatum cfg ?st1 (key w) True = ((lt, d', e, r), st2)"
      by (metis prod.exhaust)
    have ag: "age cfg ?st1 k = replyToWaiter cfg ?st1 k"
      using m1 sn w by (simp add: age_def)
    have ci: "handle cfg ?st1 (Request (checkInBytes k (token m))) = replyToWaiter cfg ?st1 k"
      using m1 w by (simp add: checkInOp_def)
    have rp: "replyToWaiter cfg ?st1 k
              = st2\<lparr>memories := (memories ?st1)
                      (k \<mapsto> \<lparr>state = newMemory, token = lt, waiters = ws\<rparr>),
                    trace := trace st2 @ [CheckOutReplied w (lt, d', e, r)]\<rparr>"
      using replyToWaiter_serves [OF m1 w, of cfg] g by simp
    obtain effs where "trace ?st' = trace (age cfg ?st1 k) @ effs"
      using foldl_age_trace [of cfg "age cfg ?st1 k" after] st' by auto
    then have "CheckOutReplied w (lt, d', e, r) \<in> set (trace ?st')"
      using ag rp by simp
    then show ?thesis
      using ag ci rp g w m' by simp
  qed
  show ?thesis
    unfolding Let_def
    apply (rule exI [of _ before])
    apply (rule exI [of _ after])
    apply (rule conjI, rule ks)
    apply (rule conjI, rule m1)
    apply (rule conjI, rule m')
    apply (rule conjI, rule dm)
    apply (rule conjI, rule impI, erule n)
    apply (rule conjI, rule impI, erule conjE, erule (1) s0)
    apply (rule conjI, rule impI, erule a)
    apply (rule impI, erule conjE, erule (1) s1)
    done
qed

lemma held_memories:
  "memories (held s ws) ''ping:foo''
   = Some \<lparr>state = s, token = ''00000000000000aa'', waiters = ws\<rparr>"
  "memories (held s ws) = [''ping:foo'' \<mapsto> \<lparr>state = s, token = ''00000000000000aa'', waiters = ws\<rparr>]"
  "trace (held s ws) = []" "nrand (held s ws) = 0"
  by (simp_all add: held_def world0_def)

lemma held_range_order: "range_order [''ping:foo''] (memories (held s ws))"
  by (simp add: range_order_def held_memories(2))

lemma keyRe_MatchString_foo: "keyRe_MatchString ''ping:foo''"
  by (simp add: keyRe_MatchString_def wordChar_def)

lemma getDatum_cfg0_absent:
  "provider st ''ping:foo'' = None \<Longrightarrow>
   getDatum cfg0 st ''ping:foo'' True
   = ((mint cfg0 (nrand st), None, False, Ok),
      st\<lparr>nrand := Suc (nrand st), trace := trace st @ [Retrieved ''ping:foo'']\<rparr>)"
  by (simp add: getDatum_def keyRe_MatchString_foo cfg0_def memBrain_def Let_def)

theorem tick_ages_every_record_witness:
  "range_order [''ping:foo''] (memories (held newMemory [bob]))
   \<and> memories (handle cfg0 (held newMemory [bob]) (Tick 0 [''ping:foo''])) ''ping:foo''
       = Some \<lparr>state = seen, token = ''00000000000000aa'', waiters = [bob]\<rparr>
   \<and> memories (handle cfg0 (held seen []) (Tick 0 [''ping:foo''])) ''ping:foo''
       = Some \<lparr>state = available, token = ''00000000000000aa'', waiters = []\<rparr>
   \<and> memories (handle cfg0 (held available []) (Tick 0 [''ping:foo''])) ''ping:foo''
       = Some \<lparr>state = available, token = ''00000000000000aa'', waiters = []\<rparr>
   \<and> memories (handle cfg0 (held seen [bob]) (Tick 0 [''ping:foo''])) ''ping:foo''
       = Some \<lparr>state = newMemory, token = mint cfg0 0, waiters = []\<rparr>
   \<and> CheckOutReplied bob (mint cfg0 0, None, False, Ok)
       \<in> set (trace (handle cfg0 (held seen [bob]) (Tick 0 [''ping:foo''])))"
proof -
  have one: "[''ping:foo''] = before @ ''ping:foo'' # after \<Longrightarrow> before = []" for before after
    by (cases before) auto
  have p: "provider ((held seen [bob])\<lparr>shortTermMemories := sweep 0 (shortTermMemories (held seen [bob]))\<rparr>) ''ping:foo'' = None"
    by (simp add: held_def world0_def)
  have n: "nrand ((held seen [bob])\<lparr>shortTermMemories := sweep 0 (shortTermMemories (held seen [bob]))\<rparr>) = 0"
    by (simp add: held_def world0_def)
  have w1: "memories (handle cfg0 (held newMemory [bob]) (Tick 0 [''ping:foo''])) ''ping:foo''
       = Some \<lparr>state = seen, token = ''00000000000000aa'', waiters = [bob]\<rparr>"
    using tick_ages_every_record [OF held_range_order held_memories(1), where cfg = cfg0 and now = 0
        and ?s1 = newMemory and ?ws1 = "[bob]"]
    by (auto simp: Let_def)
  have w2: "memories (handle cfg0 (held seen []) (Tick 0 [''ping:foo''])) ''ping:foo''
       = Some \<lparr>state = available, token = ''00000000000000aa'', waiters = []\<rparr>"
    using tick_ages_every_record [OF held_range_order held_memories(1), where cfg = cfg0 and now = 0
        and ?s1 = seen and ?ws1 = "[]"]
    by (auto simp: Let_def)
  have w3: "memories (handle cfg0 (held available []) (Tick 0 [''ping:foo''])) ''ping:foo''
       = Some \<lparr>state = available, token = ''00000000000000aa'', waiters = []\<rparr>"
    using tick_ages_every_record [OF held_range_order held_memories(1), where cfg = cfg0 and now = 0
        and ?s1 = available and ?ws1 = "[]"]
    by (auto simp: Let_def)
  have w4: "memories (handle cfg0 (held seen [bob]) (Tick 0 [''ping:foo''])) ''ping:foo''
       = Some \<lparr>state = newMemory, token = mint cfg0 0, waiters = []\<rparr>
     \<and> CheckOutReplied bob (mint cfg0 0, None, False, Ok)
       \<in> set (trace (handle cfg0 (held seen [bob]) (Tick 0 [''ping:foo''])))"
    using tick_ages_every_record [OF held_range_order held_memories(1), where cfg = cfg0 and now = 0
        and ?s1 = seen and ?ws1 = "[bob]"]
      getDatum_cfg0_absent [OF p] n
    by (auto simp: Let_def bob_def dest!: one)
  show ?thesis
    using held_range_order w1 w2 w3 w4 by simp
qed

subsection \<open>The lock table stays well formed\<close>

lemma table_ok_start: "table_ok cfg (start st)"
  by (simp add: table_ok_def start_def)

lemma table_okD:
  assumes "table_ok cfg st" and "memories st k = Some m"
  shows "keyRe_MatchString k" and "brain cfg \<noteq> None"
    and "list_all (\<lambda>w. key w = k \<and> rw w) (waiters m)"
    and "state m = available \<Longrightarrow> waiters m = []"
  using assms unfolding table_ok_def by blast+

lemma table_ok_upd:
  assumes "table_ok cfg st"
    and "keyRe_MatchString k" and "brain cfg \<noteq> None"
    and "list_all (\<lambda>w. key w = k \<and> rw w) (waiters m')"
    and "state m' = available \<longrightarrow> waiters m' = []"
    and "memories st' = (memories st)(k \<mapsto> m')"
  shows "table_ok cfg st'"
  using assms unfolding table_ok_def by auto

lemma table_ok_same:
  "table_ok cfg st \<Longrightarrow> memories st' = memories st \<Longrightarrow> table_ok cfg st'"
  unfolding table_ok_def by auto

lemma table_ok_del:
  "table_ok cfg st \<Longrightarrow> memories st' = (memories st)(k := None) \<Longrightarrow> table_ok cfg st'"
  unfolding table_ok_def by auto

lemma table_ok_replyToWaiter:
  assumes ok: "table_ok cfg st"
  shows "table_ok cfg (replyToWaiter cfg st k)"
proof (cases "memories st k")
  case None
  with ok show ?thesis by (simp add: replyToWaiter_def)
next
  case (Some m)
  show ?thesis
  proof (cases "waiters m")
    case Nil
    with Some ok show ?thesis by (simp add: replyToWaiter_def)
  next
    case (Cons w ws)
    let ?m' = "\<lparr>state = newMemory, token = fst (fst (getDatum cfg st (key w) True)),
                waiters = ws\<rparr>"
    have ws: "list_all (\<lambda>w. key w = k \<and> rw w) (waiters ?m')"
      using table_okD(3) [OF ok Some] Cons by simp
    have s: "state ?m' = available \<longrightarrow> waiters ?m' = []"
      by simp
    have r: "memories (replyToWaiter cfg st k) = (memories st)(k \<mapsto> ?m')"
      by (simp add: replyToWaiter_serves [OF Some Cons])
    show ?thesis
      by (rule table_ok_upd [OF ok table_okD(1) [OF ok Some] table_okD(2) [OF ok Some] ws s r])
  qed
qed

lemma table_ok_checkOutOp:
  assumes ok: "table_ok cfg st"
  shows "table_ok cfg (checkOutOp cfg st creq)"
proof -
  obtain lt d e r st1 where g: "getDatum cfg st (key creq) (rw creq) = ((lt, d, e, r), st1)"
    by (metis prod.exhaust)
  have m1: "memories st1 = memories st"
    using getDatum_keeps_memories [of cfg st "key creq" "rw creq"] g by simp
  show ?thesis
  proof (cases "memories st (key creq)")
    case None
    show ?thesis
    proof (cases "r = Ok \<and> rw creq")
      case True
      have "keyRe_MatchString (key creq) \<and> brain cfg \<noteq> None"
        using getDatum_Ok [of cfg st "key creq" "rw creq"] g True by simp
      then show ?thesis
        using None g True m1
        by (intro table_ok_upd [OF ok, where k = "key creq"
              and m' = "\<lparr>state = newMemory, token = lt, waiters = []\<rparr>"])
           (simp_all add: checkOutOp_def)
    next
      case False
      then show ?thesis
        using None g m1 by (intro table_ok_same [OF ok]) (auto simp add: checkOutOp_def)
    qed
  next
    case (Some memStat)
    note d = table_okD [OF ok Some]
    show ?thesis
    proof (cases "rw creq")
      case False
      then show ?thesis
        using Some g m1 by (intro table_ok_same [OF ok]) (simp add: checkOutOp_def)
    next
      case True
      show ?thesis
      proof (cases "state memStat = available")
        case True
        then show ?thesis
          using Some g m1 \<open>rw creq\<close> d
          by (intro table_ok_upd [OF ok, where k = "key creq"
                and m' = "memStat\<lparr>state := newMemory, token := lt\<rparr>"])
             (simp_all add: checkOutOp_def)
      next
        case False
        then show ?thesis
          using Some \<open>rw creq\<close> d
          by (intro table_ok_upd [OF ok, where k = "key creq"
                and m' = "memStat\<lparr>waiters := waiters memStat @ [creq]\<rparr>"])
             (auto simp add: checkOutOp_def)
      qed
    qed
  qed
qed

lemma table_ok_checkInOp:
  assumes ok: "table_ok cfg st"
  shows "table_ok cfg (checkInOp cfg st k tok)"
proof (cases "memories st k")
  case None
  with ok show ?thesis by (simp add: checkInOp_def)
next
  case (Some m)
  show ?thesis
    using Some ok table_ok_replyToWaiter [OF ok, of k]
      table_ok_del [OF ok, of "st\<lparr>memories := (memories st)(k := None)\<rparr>" k]
    by (simp add: checkInOp_def)
qed

lemma table_ok_trace_upd: "table_ok cfg (st\<lparr>trace := t\<rparr>) = table_ok cfg st"
  by (simp add: table_ok_def)

lemma table_ok_updateOp:
  assumes ok: "table_ok cfg st"
  shows "table_ok cfg (updateOp cfg st k tok datum ch)"
proof (cases "memories st k")
  case None
  with ok show ?thesis by (simp add: updateOp_def table_ok_trace_upd)
next
  case (Some m)
  obtain r st1 where s: "storeDatum cfg st k datum = (r, st1)"
    by (metis prod.exhaust)
  let ?st2 = "st1\<lparr>trace := trace st1 @ [UpdateReplied ch r]\<rparr>"
  have m1: "memories ?st2 = memories st"
    using storeDatum_keeps(2) [of cfg st k datum] s by simp
  have ok2: "table_ok cfg ?st2"
    by (rule table_ok_same [OF ok m1])
  show ?thesis
    using Some ok s table_ok_replyToWaiter [OF ok2, of k]
      table_ok_del [OF ok2, of "?st2\<lparr>memories := (memories ?st2)(k := None)\<rparr>" k]
    by (simp add: updateOp_def table_ok_trace_upd Let_def)
qed

lemma table_ok_age:
  assumes ok: "table_ok cfg st"
  shows "table_ok cfg (age cfg st k)"
proof (cases "memories st k")
  case None
  with ok show ?thesis by (simp add: age_def)
next
  case (Some m)
  note d = table_okD [OF ok Some]
  show ?thesis
  proof (cases "state m")
    case newMemory
    then show ?thesis
      using Some d
      by (intro table_ok_upd [OF ok, where k = k and m' = "m\<lparr>state := seen\<rparr>"])
         (simp_all add: age_def)
  next
    case seen
    show ?thesis
    proof (cases "waiters m")
      case Nil
      then show ?thesis
        using Some d seen
        by (intro table_ok_upd [OF ok, where k = k and m' = "m\<lparr>state := available\<rparr>"])
           (simp_all add: age_def)
    next
      case (Cons w ws)
      then show ?thesis
        using Some seen table_ok_replyToWaiter [OF ok, of k] by (simp add: age_def)
    qed
  next
    case available
    then show ?thesis
      using Some ok by (simp add: age_def)
  qed
qed

lemma table_ok_foldl_age: "table_ok cfg st \<Longrightarrow> table_ok cfg (foldl (age cfg) st ks)"
  by (induction ks arbitrary: st) (simp_all add: table_ok_age)

lemma table_ok_handle: "table_ok cfg st \<Longrightarrow> table_ok cfg (handle cfg st ev)"
proof (cases ev)
  case (Request op)
  assume "table_ok cfg st"
  then show ?thesis
    using Request
    by (cases op)
       (simp_all add: table_ok_checkOutOp table_ok_checkInOp table_ok_updateOp table_ok_trace_upd)
next
  case (Tick now ks)
  assume ok: "table_ok cfg st"
  have "table_ok cfg (st\<lparr>shortTermMemories := sweep now (shortTermMemories st)\<rparr>)"
    using ok by (simp add: table_ok_def)
  then show ?thesis
    using Tick by (simp add: processMemories_def table_ok_foldl_age)
qed

lemma runBrain_Cons:
  "runBrain cfg st (ev # evs)
   = (if is_quit ev then handle cfg st ev else runBrain cfg (handle cfg st ev) evs)"
proof (cases ev)
  case (Request op)
  then show ?thesis by (cases op) simp_all
next
  case (Tick now ks)
  then show ?thesis by simp
qed

lemma table_ok_runBrain: "table_ok cfg st \<Longrightarrow> table_ok cfg (runBrain cfg st evs)"
proof (induction evs arbitrary: st)
  case Nil
  then show ?case by simp
next
  case (Cons ev evs)
  have "table_ok cfg (handle cfg st ev)"
    by (rule table_ok_handle [OF Cons.prems])
  then show ?case
    using Cons.IH [of "handle cfg st ev"] by (simp add: runBrain_Cons del: runBrain.simps)
qed

subsection \<open>Tokens, and the sample worlds\<close>

lemma length_mint: "length (mint cfg n) = 16"
  by (simp add: mint_def sprintf_x_def ltb_def hexByte_def)

lemma hexDigit_inj:
  assumes "a < 16" and "b < 16" and "hexDigit a = hexDigit b"
  shows "a = b"
proof -
  have d: "distinct ''0123456789abcdef''"
    by simp
  have l: "length ''0123456789abcdef'' = 16"
    by simp
  show ?thesis
    using assms nth_eq_iff_index_eq [OF d, of a b] l
    by (simp add: hexDigit_def)
qed

lemma hexByte_inj:
  assumes "hexByte a = hexByte b"
  shows "a = b"
proof -
  have la: "unat a < 256" and lb: "unat b < 256"
    using unsigned_less [of a, where ?'a = nat] unsigned_less [of b, where ?'a = nat] by simp_all
  have h1: "hexDigit (unat a div 16) = hexDigit (unat b div 16)"
    and h2: "hexDigit (unat a mod 16) = hexDigit (unat b mod 16)"
    using assms by (simp_all add: hexByte_def)
  have "unat a div 16 = unat b div 16"
    using hexDigit_inj [OF _ _ h1] la lb by simp
  moreover have "unat a mod 16 = unat b mod 16"
    using hexDigit_inj [OF _ _ h2] by simp
  ultimately have "unat a = unat b"
    by (metis div_mult_mod_eq)
  then show ?thesis
    by (simp add: word_unat_eq_iff)
qed

lemma sprintf_x_inj:
  assumes "length xs = length ys" and "sprintf_x xs = sprintf_x ys"
  shows "xs = ys"
  using assms
proof (induction xs ys rule: list_induct2)
  case Nil
  then show ?case by simp
next
  case (Cons x xs y ys)
  have e: "hexByte x @ sprintf_x xs = hexByte y @ sprintf_x ys"
    using Cons.prems by (simp add: sprintf_x_def)
  have "length (hexByte x) = length (hexByte y)"
    by (simp add: hexByte_def)
  then have "hexByte x = hexByte y" and "sprintf_x xs = sprintf_x ys"
    using e by simp_all
  then show ?case
    using hexByte_inj Cons.IH by simp
qed

lemma ltb_inj:
  assumes "ltb w = ltb w'"
  shows "w = w'"
proof (rule bit_word_eqI)
  fix n
  assume n: "n < LENGTH(64)"
  have all: "\<forall>i \<in> set [0, 1, 2, 3, 4, 5, 6, 7 :: nat].
               (ucast (drop_bit (8 * i) w) :: 8 word) = ucast (drop_bit (8 * i) w')"
    using assms unfolding ltb_def map_eq_conv .
  have "n div 8 < 8"
    using n by simp
  then have "n div 8 \<in> set [0, 1, 2, 3, 4, 5, 6, 7 :: nat]"
    by auto
  then have e: "(ucast (drop_bit (8 * (n div 8)) w) :: 8 word)
                = ucast (drop_bit (8 * (n div 8)) w')"
    using all by blast
  have b: "bit (ucast (drop_bit (8 * (n div 8)) v) :: 8 word) (n mod 8) = bit v n"
    for v :: "64 word"
    by (simp add: bit_ucast_iff bit_drop_bit_eq)
  show "bit w n = bit w' n"
    using b [of w] b [of w'] e by simp
qed

lemma mint_inj: "mint cfg i = mint cfg j \<longleftrightarrow> rand_Read cfg i = rand_Read cfg j"
proof
  assume "mint cfg i = mint cfg j"
  then have "ltb (rand_Read cfg i) = ltb (rand_Read cfg j)"
    by (intro sprintf_x_inj) (simp_all add: mint_def ltb_def)
  then show "rand_Read cfg i = rand_Read cfg j"
    by (rule ltb_inj)
next
  assume "rand_Read cfg i = rand_Read cfg j"
  then show "mint cfg i = mint cfg j"
    by (simp add: mint_def)
qed


lemma mint_cfg0:
  "mint cfg0 0 = ''0000000000000000''" "mint cfg0 (Suc 0) = ''0100000000000000''"
  by (simp_all add: mint_def cfg0_def sprintf_x_def ltb_def hexByte_def hexDigit_def)

lemma table_ok_held:
  "brain cfg \<noteq> None \<Longrightarrow> list_all (\<lambda>w. key w = ''ping:foo'' \<and> rw w) ws \<Longrightarrow>
   (s = available \<longrightarrow> ws = []) \<Longrightarrow> table_ok cfg (held s ws)"
  by (auto simp add: table_ok_def held_memories(2) keyRe_MatchString_foo split: if_splits)

lemma held_provider: "provider (held s ws) ''ping:foo'' = None"
  by (simp add: held_def world0_def)

subsection \<open>One holder at a time\<close>

lemma minted_mono:
  assumes "minted cfg n t" and "n \<le> n'"
  shows "minted cfg n' t"
proof (cases "t = ''''")
  case True
  then show ?thesis by (simp add: minted_def)
next
  case False
  then obtain i where i: "i < n" "t = mint cfg i"
    using assms(1) by (auto simp: minted_def)
  have "i < n'" using i(1) assms(2) by simp
  then show ?thesis
    using i(2) unfolding minted_def by blast
qed








lemma storageEffect_tokenOf: "storageEffect eff \<Longrightarrow> tokenOf eff = ''''"
  by (cases eff) auto

lemma storage_tokenless: "list_all storageEffect effs \<Longrightarrow> \<forall>eff \<in> set effs. tokenOf eff = ''''"
  by (simp add: list_all_iff storageEffect_tokenOf)

lemma tokenless_filter:
  "\<forall>eff \<in> set effs. tokenOf eff = '''' \<Longrightarrow> filter (\<lambda>eff. tokenOf eff \<noteq> '''') effs = []"
  by (simp add: filter_empty_conv)

lemma step_ok_quiet:
  assumes "trace st' = trace st @ pre" and "\<forall>eff \<in> set pre. tokenOf eff = ''''"
    and "nrand st' = nrand st"
    and "\<forall>k m'. memories st' k = Some m' \<longrightarrow> (\<exists>m. memories st k = Some m \<and> token m' = token m)"
  shows "step_ok cfg st st'"
  unfolding step_ok_def
  apply (rule exI [of _ pre])
  using assms tokenless_filter [of pre]
  apply simp
  done

lemma step_ok_getDatum_reply:
  assumes pre: "trace st2 = trace st @ pre" "\<forall>eff \<in> set pre. tokenOf eff = ''''"
      "nrand st2 = nrand st"
    and g: "getDatum cfg st2 kk b = ((lt, d, e, r), st1)"
    and tr: "trace st' = trace st1 @ [CheckOutReplied creq (lt, d, e, r)]"
    and nr: "nrand st' = nrand st1"
    and mem: "\<forall>k m'. memories st' k = Some m' \<longrightarrow>
                token m' = lt \<or> (\<exists>m. memories st k = Some m \<and> token m' = token m)"
  shows "step_ok cfg st st'"
proof -
  obtain effs0 where e0: "trace st1 = trace st2 @ effs0" "list_all storageEffect effs0"
    using getDatum_trace [of cfg st2 kk b] g by auto
  let ?effs = "pre @ effs0 @ [CheckOutReplied creq (lt, d, e, r)]"
  have n1: "nrand st1 = (if b \<and> keyRe_MatchString kk \<and> brain cfg \<noteq> None
                         then Suc (nrand st) else nrand st)"
    using getDatum_nrand [of cfg st2 kk b] g pre(3) by simp
  have lt: "lt = '''' \<or> (lt = mint cfg (nrand st) \<and> nrand st < nrand st')"
    using getDatum_token [of cfg st2 kk b] g n1 nr pre(3) by auto
  have t0: "\<forall>eff \<in> set (pre @ effs0). tokenOf eff = ''''"
    using pre(2) storage_tokenless [OF e0(2)] by auto
  have a: "trace st' = trace st @ ?effs"
    using tr e0(1) pre(1) by simp
  have b: "nrand st \<le> nrand st'"
    using n1 nr by simp
  have c: "\<forall>eff \<in> set ?effs. tokenOf eff = ''''
              \<or> (tokenOf eff = mint cfg (nrand st) \<and> nrand st < nrand st')"
    using t0 lt by auto
  have "filter (\<lambda>eff. tokenOf eff \<noteq> '''') (pre @ effs0) = []"
    by (rule tokenless_filter [OF t0])
  then have d: "length (filter (\<lambda>eff. tokenOf eff \<noteq> '''') ?effs) \<le> 1"
    by simp
  have e: "\<forall>k m'. memories st' k = Some m' \<longrightarrow>
              token m' = ''''
              \<or> (token m' = mint cfg (nrand st) \<and> nrand st < nrand st')
              \<or> (\<exists>m. memories st k = Some m \<and> token m' = token m)"
    using mem lt by blast
  show ?thesis
    unfolding step_ok_def
    apply (rule exI [of _ ?effs])
    apply (rule conjI, rule a)
    apply (rule conjI, rule b)
    apply (rule conjI, rule c)
    apply (rule conjI, rule d)
    apply (rule e)
    done
qed

lemma step_ok_replyToWaiter:
  assumes pre: "trace st2 = trace st @ pre" "\<forall>eff \<in> set pre. tokenOf eff = ''''"
      "nrand st2 = nrand st" "memories st2 = memories st"
  shows "step_ok cfg st (replyToWaiter cfg st2 k)"
proof -
  have quiet: "step_ok cfg st st2"
    using pre by (intro step_ok_quiet [where pre = pre]) simp_all
  show ?thesis
  proof (cases "memories st2 k")
    case None
    then show ?thesis using quiet by (simp add: replyToWaiter_def)
  next
    case (Some m)
    show ?thesis
    proof (cases "waiters m")
      case Nil
      then show ?thesis using Some quiet by (simp add: replyToWaiter_def)
    next
      case (Cons w ws)
      obtain lt d e r st1 where g: "getDatum cfg st2 (key w) True = ((lt, d, e, r), st1)"
        by (metis prod.exhaust)
      have rp: "replyToWaiter cfg st2 k
                = st1\<lparr>memories := (memories st2)
                        (k \<mapsto> \<lparr>state = newMemory, token = lt, waiters = ws\<rparr>),
                      trace := trace st1 @ [CheckOutReplied w (lt, d, e, r)]\<rparr>"
        using replyToWaiter_serves [OF Some Cons, of cfg] g by simp
      show ?thesis
        by (rule step_ok_getDatum_reply [OF pre(1) pre(2) pre(3) g])
           (simp_all add: rp pre(4))
    qed
  qed
qed

lemma step_ok_checkInOp: "step_ok cfg st (checkInOp cfg st k tok)"
proof -
  have q: "step_ok cfg st st"
    by (rule step_ok_quiet [where pre = "[]"]) simp_all
  have r: "step_ok cfg st (replyToWaiter cfg st k)"
    by (rule step_ok_replyToWaiter [where pre = "[]"]) simp_all
  have d: "step_ok cfg st (st\<lparr>memories := (memories st)(k := None)\<rparr>)"
    by (rule step_ok_quiet [where pre = "[]"]) (simp_all split: if_splits)
  show ?thesis
    using q r d by (simp add: checkInOp_def split: option.splits)
qed

lemma step_ok_updateOp: "step_ok cfg st (updateOp cfg st k tok datum ch)"
proof (cases "memories st k")
  case None
  have "step_ok cfg st (st\<lparr>trace := trace st @ [UpdateReplied ch DatumNotFound]\<rparr>)"
    by (rule step_ok_quiet [where pre = "[UpdateReplied ch DatumNotFound]"]) simp_all
  then show ?thesis
    using None by (simp add: updateOp_def)
next
  case (Some m)
  show ?thesis
  proof (cases "tok = token m")
    case False
    have "step_ok cfg st (st\<lparr>trace := trace st @ [UpdateReplied ch DatumLockExpired]\<rparr>)"
      by (rule step_ok_quiet [where pre = "[UpdateReplied ch DatumLockExpired]"]) simp_all
    then show ?thesis
      using Some False by (simp add: updateOp_def)
  next
    case True
    obtain r st1 where s: "storeDatum cfg st k datum = (r, st1)"
      by (metis prod.exhaust)
    obtain effs where e: "trace st1 = trace st @ effs" "list_all storageEffect effs"
      using storeDatum_trace [of cfg st k datum] s by auto
    let ?st2 = "st1\<lparr>trace := trace st1 @ [UpdateReplied ch r]\<rparr>"
    let ?pre = "effs @ [UpdateReplied ch r]"
    have p1: "trace ?st2 = trace st @ ?pre"
      using e(1) by simp
    have p2: "\<forall>eff \<in> set ?pre. tokenOf eff = ''''"
      using storage_tokenless [OF e(2)] by auto
    have p3: "nrand ?st2 = nrand st"
      using storeDatum_keeps(3) [of cfg st k datum] s by simp
    have p4: "memories ?st2 = memories st"
      using storeDatum_keeps(2) [of cfg st k datum] s by simp
    have a: "step_ok cfg st (replyToWaiter cfg ?st2 k)"
      by (rule step_ok_replyToWaiter [OF p1 p2 p3 p4])
    have b: "step_ok cfg st (?st2\<lparr>memories := (memories ?st2)(k := None)\<rparr>)"
      using p1 p2 p3 p4
      by (intro step_ok_quiet [where pre = ?pre]) (simp_all split: if_splits)
    show ?thesis
      using Some True s a b by (simp add: updateOp_def Let_def)
  qed
qed

lemma step_ok_checkOutOp: "step_ok cfg st (checkOutOp cfg st creq)"
proof -
  obtain lt d e r st1 where g: "getDatum cfg st (key creq) (rw creq) = ((lt, d, e, r), st1)"
    by (metis prod.exhaust)
  have m1: "memories st1 = memories st"
    using getDatum_keeps_memories [of cfg st "key creq" "rw creq"] g by simp
  have p: "trace st = trace st @ []" "\<forall>eff \<in> set []. tokenOf eff = ''''" "nrand st = nrand st"
    by simp_all
  note grant = step_ok_getDatum_reply [OF p g]
  show ?thesis
  proof (cases "memories st (key creq)")
    case None
    show ?thesis
    proof (cases "r = Ok \<and> rw creq")
      case True
      have "step_ok cfg st
              (st1\<lparr>memories := (memories st1)
                      (key creq \<mapsto> \<lparr>state = newMemory, token = lt, waiters = []\<rparr>),
                    trace := trace st1 @ [CheckOutReplied creq (lt, d, e, r)]\<rparr>)"
        by (rule grant) (simp_all add: m1)
      then show ?thesis
        using None g True by (simp add: checkOutOp_def)
    next
      case False
      have "step_ok cfg st (st1\<lparr>trace := trace st1 @ [CheckOutReplied creq (lt, d, e, r)]\<rparr>)"
        by (rule grant) (simp_all add: m1)
      then show ?thesis
        using None g False by (auto simp add: checkOutOp_def)
    qed
  next
    case (Some memStat)
    show ?thesis
    proof (cases "rw creq")
      case False
      have "step_ok cfg st (st1\<lparr>trace := trace st1 @ [CheckOutReplied creq (lt, d, e, r)]\<rparr>)"
        by (rule grant) (simp_all add: m1)
      then show ?thesis
        using Some g False by (simp add: checkOutOp_def)
    next
      case True
      show ?thesis
      proof (cases "state memStat = available")
        case True
        have "step_ok cfg st
                (st1\<lparr>memories := (memories st1)
                        (key creq \<mapsto> memStat\<lparr>state := newMemory, token := lt\<rparr>),
                      trace := trace st1 @ [CheckOutReplied creq (lt, d, e, r)]\<rparr>)"
          by (rule grant) (simp_all add: m1)
        then show ?thesis
          using Some g True \<open>rw creq\<close> by (simp add: checkOutOp_def)
      next
        case False
        have "step_ok cfg st
                (st\<lparr>memories := (memories st)
                       (key creq \<mapsto> memStat\<lparr>waiters := waiters memStat @ [creq]\<rparr>)\<rparr>)"
          using Some by (intro step_ok_quiet [where pre = "[]"]) (simp_all split: if_splits)
        then show ?thesis
          using Some False \<open>rw creq\<close> by (simp add: checkOutOp_def)
      qed
    qed
  qed
qed

lemma step_ok_age: "step_ok cfg st (age cfg st k)"
proof -
  have q: "step_ok cfg st st"
    by (rule step_ok_quiet [where pre = "[]"]) simp_all
  have r: "step_ok cfg st (replyToWaiter cfg st k)"
    by (rule step_ok_replyToWaiter [where pre = "[]"]) simp_all
  have u: "memories st k = Some m \<Longrightarrow>
           step_ok cfg st (st\<lparr>memories := (memories st)(k \<mapsto> m\<lparr>state := s\<rparr>)\<rparr>)" for m s
    by (rule step_ok_quiet [where pre = "[]"]) (simp_all split: if_splits)
  show ?thesis
    using q r u by (simp add: age_def split: option.splits memState.splits)
qed




lemma handle_trace: "\<exists>effs. trace (handle cfg st ev) = trace st @ effs"
proof (cases ev)
  case (Request op)
  show ?thesis
  proof (cases op)
    case (checkOutBytes creq)
    then show ?thesis
      using Request step_ok_checkOutOp [of cfg st creq] unfolding step_ok_def by auto
  next
    case (checkInBytes k tok)
    then show ?thesis
      using Request step_ok_checkInOp [of cfg st k tok] unfolding step_ok_def by auto
  next
    case (updateBytes k tok datum ch)
    then show ?thesis
      using Request step_ok_updateOp [of cfg st k tok datum ch] unfolding step_ok_def by auto
  next
    case (quit ch)
    then show ?thesis using Request by simp
  qed
next
  case (Tick now ks)
  then show ?thesis
    using foldl_age_trace [of cfg "st\<lparr>shortTermMemories := sweep now (shortTermMemories st)\<rparr>" ks]
    by (simp add: processMemories_def)
qed



lemma runBrain_trace: "\<exists>effs. trace (runBrain cfg st evs) = trace st @ effs"
proof (induction evs arbitrary: st)
  case Nil
  then show ?case by simp
next
  case (Cons ev evs)
  obtain e1 where e1: "trace (handle cfg st ev) = trace st @ e1"
    using handle_trace by blast
  obtain e2 where "trace (runBrain cfg (handle cfg st ev) evs) = trace (handle cfg st ev) @ e2"
    using Cons.IH by blast
  then show ?case
    using e1 by (simp add: runBrain_Cons del: runBrain.simps)
qed




lemma step_ok_tokens:
  assumes tok: "tokens_ok cfg st" and step: "step_ok cfg st st'"
  shows "tokens_ok cfg st'"
proof -
  obtain effs where tr: "trace st' = trace st @ effs"
    and nr: "nrand st \<le> nrand st'"
    and ef: "\<forall>eff \<in> set effs. tokenOf eff = ''''
              \<or> (tokenOf eff = mint cfg (nrand st) \<and> nrand st < nrand st')"
    and rc: "\<forall>k m'. memories st' k = Some m' \<longrightarrow>
              token m' = ''''
              \<or> (token m' = mint cfg (nrand st) \<and> nrand st < nrand st')
              \<or> (\<exists>m. memories st k = Some m \<and> token m' = token m)"
    using step unfolding step_ok_def by blast
  have new_minted: "nrand st < nrand st' \<Longrightarrow> minted cfg (nrand st') (mint cfg (nrand st))"
    by (auto simp: minted_def)
  have empty_minted: "minted cfg (nrand st') ''''"
    by (simp add: minted_def)
  have t1: "minted cfg (nrand st') (tokenOf eff)" if "eff \<in> set (trace st')" for eff
  proof (cases "eff \<in> set (trace st)")
    case True
    then have "minted cfg (nrand st) (tokenOf eff)"
      using tok by (simp add: tokens_ok_def)
    then show ?thesis
      by (rule minted_mono [OF _ nr])
  next
    case False
    then have "eff \<in> set effs" using that tr by simp
    then show ?thesis
      using ef new_minted empty_minted by auto
  qed
  have t2: "minted cfg (nrand st') (token m')" if mm: "memories st' k = Some m'" for k m'
  proof -
    consider "token m' = ''''" | "token m' = mint cfg (nrand st)" "nrand st < nrand st'"
      | m where "memories st k = Some m" "token m' = token m"
      using rc mm by blast
    then show ?thesis
    proof cases
      case 1
      then show ?thesis using empty_minted by simp
    next
      case 2
      then show ?thesis using new_minted by simp
    next
      case 3
      have "minted cfg (nrand st) (token m)"
        using tok 3(1) unfolding tokens_ok_def by blast
      then show ?thesis
        using minted_mono [OF _ nr] 3(2) by simp
    qed
  qed
  show ?thesis
    using t1 t2 by (simp add: tokens_ok_def)
qed

lemma tokens_ok_foldl_age:
  "tokens_ok cfg st \<Longrightarrow> tokens_ok cfg (foldl (age cfg) st ks)"
proof (induction ks arbitrary: st)
  case Nil
  then show ?case by simp
next
  case (Cons k ks)
  have "tokens_ok cfg (age cfg st k)"
    by (rule step_ok_tokens [OF Cons.prems step_ok_age])
  then show ?case
    using Cons.IH by simp
qed

lemma tokens_ok_handle:
  assumes tok: "tokens_ok cfg st"
  shows "tokens_ok cfg (handle cfg st ev)"
proof (cases ev)
  case (Request op)
  show ?thesis
  proof (cases op)
    case (checkOutBytes creq)
    then show ?thesis
      using Request step_ok_tokens [OF tok step_ok_checkOutOp [of cfg st creq]] by simp
  next
    case (checkInBytes k tok')
    then show ?thesis
      using Request step_ok_tokens [OF tok step_ok_checkInOp [of cfg st k tok']] by simp
  next
    case (updateBytes k tok' datum ch)
    then show ?thesis
      using Request step_ok_tokens [OF tok step_ok_updateOp [of cfg st k tok' datum ch]]
      by simp
  next
    case (quit ch)
    have "step_ok cfg st (st\<lparr>trace := trace st @ [QuitReplied ch]\<rparr>)"
      by (rule step_ok_quiet [where pre = "[QuitReplied ch]"]) simp_all
    then show ?thesis
      using Request quit step_ok_tokens [OF tok] by simp
  qed
next
  case (Tick now ks)
  have "tokens_ok cfg (st\<lparr>shortTermMemories := sweep now (shortTermMemories st)\<rparr>)"
    using tok by (simp add: tokens_ok_def)
  then show ?thesis
    using Tick by (simp add: processMemories_def tokens_ok_foldl_age)
qed

lemma tokens_ok_runBrain: "tokens_ok cfg st \<Longrightarrow> tokens_ok cfg (runBrain cfg st evs)"
proof (induction evs arbitrary: st)
  case Nil
  then show ?case by simp
next
  case (Cons ev evs)
  have "tokens_ok cfg (handle cfg st ev)"
    by (rule tokens_ok_handle [OF Cons.prems])
  then show ?case
    using Cons.IH [of "handle cfg st ev"] by (simp add: runBrain_Cons del: runBrain.simps)
qed

lemma tokens_ok_start: "tokens_ok cfg (start st)"
  by (simp add: tokens_ok_def start_def)

subsection \<open>Who gets an answer\<close>

lemma storage_no_reply: "list_all storageEffect effs \<Longrightarrow> filter (repliesTo w) effs = []"
proof -
  have "storageEffect eff \<Longrightarrow> \<not> repliesTo w eff" for eff
    by (cases eff) auto
  then show "list_all storageEffect effs \<Longrightarrow> filter (repliesTo w) effs = []"
    by (auto simp add: filter_empty_conv list_all_iff)
qed

lemma answers_getDatum: "answers (snd (getDatum cfg st k b)) w = answers st w"
proof -
  obtain effs where "trace (snd (getDatum cfg st k b)) = trace st @ effs"
    "list_all storageEffect effs"
    using getDatum_trace by blast
  then show ?thesis
    by (simp add: answers_def storage_no_reply)
qed

lemma answers_storeDatum: "answers (snd (storeDatum cfg st k d)) w = answers st w"
proof -
  obtain effs where "trace (snd (storeDatum cfg st k d)) = trace st @ effs"
    "list_all storageEffect effs"
    using storeDatum_trace by blast
  then show ?thesis
    by (simp add: answers_def storage_no_reply)
qed

lemma answers_replyToWaiter:
  assumes "memories st k = Some m" and "waiters m = w # ws"
  shows "answers (replyToWaiter cfg st k) w'
         = answers st w'
           @ (if w = w' then [CheckOutReplied w (fst (getDatum cfg st (key w) True))] else [])"
  using answers_getDatum [of cfg st "key w" True w']
  by (simp add: replyToWaiter_serves [OF assms] answers_def)

lemma answers_prefix:
  "trace st' = trace st @ effs \<Longrightarrow> length (answers st w) \<le> length (answers st' w)"
  by (simp add: answers_def)

lemma answers_handle_mono: "length (answers st w) \<le> length (answers (handle cfg st ev) w)"
  using handle_trace [of cfg st ev] answers_prefix by blast

lemma answers_runBrain_mono: "length (answers st w) \<le> length (answers (runBrain cfg st evs) w)"
  using runBrain_trace [of cfg st evs] answers_prefix by blast

lemma answers_foldl_age_mono:
  "length (answers st w) \<le> length (answers (foldl (age cfg) st ks) w)"
  using foldl_age_trace [of cfg st ks] answers_prefix by blast

lemma answers_checkOutOp:
  assumes ok: "table_ok cfg st" and rec: "memories st k = Some m" and w: "w \<in> set (waiters m)"
  shows "answers (checkOutOp cfg st creq) w = answers st w"
proof -
  have kw: "key w = k" "rw w"
    using table_okD(3) [OF ok rec] w by (auto simp: list_all_iff)
  have na: "state m \<noteq> available"
    using table_okD(4) [OF ok rec] w by auto
  obtain rep st1 where g: "getDatum cfg st (key creq) (rw creq) = (rep, st1)"
    by (metis prod.exhaust)
  have a1: "answers st1 w = answers st w"
    using answers_getDatum [of cfg st "key creq" "rw creq" w] g by simp
  have t1: "filter (repliesTo w) (trace st1) = answers st w"
    using a1 by (simp add: answers_def)
  show ?thesis
  proof (cases "memories st (key creq)")
    case None
    then have "creq \<noteq> w" using rec kw by auto
    then show ?thesis
      using None g t1 by (auto simp add: checkOutOp_def answers_def Let_def split: prod.splits)
  next
    case (Some memStat)
    show ?thesis
    proof (cases "rw creq")
      case False
      then have "creq \<noteq> w" using kw by auto
      then show ?thesis
        using Some g t1 False by (auto simp add: checkOutOp_def answers_def split: prod.splits)
    next
      case True
      show ?thesis
      proof (cases "state memStat = available")
        case True
        then have "creq \<noteq> w" using Some rec kw na by auto
        then show ?thesis
          using Some g t1 True \<open>rw creq\<close>
          by (auto simp add: checkOutOp_def answers_def split: prod.splits)
      next
        case False
        then show ?thesis
          using Some \<open>rw creq\<close> by (simp add: checkOutOp_def answers_def)
      qed
    qed
  qed
qed

lemma answered_by_replyToWaiter:
  assumes ok: "table_ok cfg st" and rec: "memories st k = Some m" and w: "w \<in> set (waiters m)"
    and rec': "memories st2 = memories st"
    and ch: "answers (replyToWaiter cfg st2 k') w \<noteq> answers st2 w"
  shows "k' = k \<and> w = hd (waiters m)"
proof (cases "memories st k'")
  case None
  then show ?thesis using ch rec' by (simp add: replyToWaiter_def)
next
  case (Some m')
  show ?thesis
  proof (cases "waiters m'")
    case Nil
    then show ?thesis using ch rec' Some by (simp add: replyToWaiter_def)
  next
    case (Cons w' ws')
    have s2: "memories st2 k' = Some m'" using Some rec' by simp
    have "w' = w"
      using ch answers_replyToWaiter [OF s2 Cons, of cfg w] by (simp split: if_splits)
    moreover have "key w' = k'"
      using table_okD(3) [OF ok Some] Cons by simp
    moreover have "key w = k"
      using table_okD(3) [OF ok rec] w by (auto simp: list_all_iff)
    ultimately show ?thesis
      using Some rec Cons by auto
  qed
qed

lemma answered_by_request:
  assumes ok: "table_ok cfg st" and rec: "memories st k = Some m" and w: "w \<in> set (waiters m)"
    and ch: "answers (brainChanEvent cfg st op) w \<noteq> answers st w"
  shows "w = hd (waiters m)
         \<and> (op = checkInBytes k (token m) \<or> (\<exists>datum c. op = updateBytes k (token m) datum c))"
proof (cases op)
  case (checkOutBytes creq)
  then show ?thesis
    using ch answers_checkOutOp [OF ok rec w, of creq] by simp
next
  case (checkInBytes k' tok)
  have ch': "answers (checkInOp cfg st k' tok) w \<noteq> answers st w"
    using ch checkInBytes by simp
  show ?thesis
  proof (cases "memories st k'")
    case None
    then show ?thesis using ch' by (simp add: checkInOp_def)
  next
    case (Some m')
    have t: "tok = token m'" and r: "answers (replyToWaiter cfg st k') w \<noteq> answers st w"
      using ch' Some by (auto simp add: checkInOp_def answers_def split: if_splits)
    have "k' = k \<and> w = hd (waiters m)"
      by (rule answered_by_replyToWaiter [OF ok rec w refl r])
    then show ?thesis
      using t Some rec checkInBytes by auto
  qed
next
  case (updateBytes k' tok datum c)
  have ch': "answers (updateOp cfg st k' tok datum c) w \<noteq> answers st w"
    using ch updateBytes by simp
  show ?thesis
  proof (cases "memories st k'")
    case None
    then show ?thesis using ch' by (simp add: updateOp_def answers_def)
  next
    case (Some m')
    obtain r st1 where s: "storeDatum cfg st k' datum = (r, st1)"
      by (metis prod.exhaust)
    let ?st2 = "st1\<lparr>trace := trace st1 @ [UpdateReplied c r]\<rparr>"
    have m2: "memories ?st2 = memories st"
      using storeDatum_keeps(2) [of cfg st k' datum] s by simp
    have a2: "answers ?st2 w = answers st w"
      using answers_storeDatum [of cfg st k' datum w] s by (simp add: answers_def)
    have t: "tok = token m'" and rr: "answers (replyToWaiter cfg ?st2 k') w \<noteq> answers ?st2 w"
      using ch' Some s a2
      by (auto simp add: updateOp_def answers_def Let_def split: if_splits)
    have "k' = k \<and> w = hd (waiters m)"
      by (rule answered_by_replyToWaiter [OF ok rec w m2 rr])
    then show ?thesis
      using t Some rec updateBytes by auto
  qed
next
  case (quit c)
  then show ?thesis using ch by (simp add: answers_def)
qed

lemma answered_by_age:
  assumes ok: "table_ok cfg st" and ch: "answers (age cfg st k') w \<noteq> answers st w"
  shows "\<exists>m' ws. memories st k' = Some m' \<and> state m' = seen \<and> waiters m' = w # ws"
proof (cases "memories st k'")
  case None
  then show ?thesis using ch by (simp add: age_def)
next
  case (Some m')
  have sn: "state m' = seen" and ne: "waiters m' \<noteq> []"
    and r: "answers (replyToWaiter cfg st k') w \<noteq> answers st w"
    using ch Some by (auto simp add: age_def answers_def split: memState.splits if_splits)
  obtain w' ws' where c: "waiters m' = w' # ws'"
    using ne by (cases "waiters m'") auto
  have "w' = w"
    using r answers_replyToWaiter [OF Some c, of cfg w] by (simp split: if_splits)
  then show ?thesis
    using Some sn c by simp
qed

lemma answered_by_tick:
  assumes "table_ok cfg st" and "distinct ks"
    and "answers (foldl (age cfg) st ks) w \<noteq> answers st w"
  shows "\<exists>k' \<in> set ks. \<exists>m' ws. memories st k' = Some m' \<and> state m' = seen \<and> waiters m' = w # ws"
  using assms
proof (induction ks arbitrary: st)
  case Nil
  then show ?case by simp
next
  case (Cons k0 ks)
  show ?case
  proof (cases "answers (age cfg st k0) w = answers st w")
    case False
    then show ?thesis
      using answered_by_age [OF Cons.prems(1)] by auto
  next
    case True
    have ok1: "table_ok cfg (age cfg st k0)"
      by (rule table_ok_age [OF Cons.prems(1)])
    have "answers (foldl (age cfg) (age cfg st k0) ks) w \<noteq> answers (age cfg st k0) w"
      using Cons.prems(3) True by simp
    then obtain k' m' ws where k': "k' \<in> set ks" "memories (age cfg st k0) k' = Some m'"
      "state m' = seen" "waiters m' = w # ws"
      using Cons.IH [OF ok1] Cons.prems(2) by auto
    have "k' \<noteq> k0" using k'(1) Cons.prems(2) by auto
    then have "memories st k' = Some m'"
      using k'(2) age_other [of k' k0 cfg st] by simp
    then show ?thesis
      using k' by auto
  qed
qed

subsection \<open>The head of the queue is served by the second tick\<close>

lemma tick_at_key:
  assumes ro: "range_order ks (memories st)" and rec: "memories st k = Some m"
  shows "\<exists>before after. ks = before @ k # after
     \<and> memories (foldl (age cfg) (st\<lparr>shortTermMemories := sweep now (shortTermMemories st)\<rparr>) before) k
         = Some m
     \<and> handle cfg st (Tick now ks)
         = foldl (age cfg)
             (age cfg (foldl (age cfg)
                (st\<lparr>shortTermMemories := sweep now (shortTermMemories st)\<rparr>) before) k) after
     \<and> k \<notin> set after"
proof -
  let ?st0 = "st\<lparr>shortTermMemories := sweep now (shortTermMemories st)\<rparr>"
  have "k \<in> set ks"
    using ro rec by (auto simp: range_order_def)
  then obtain before after where ks: "ks = before @ k # after"
    by (meson split_list)
  have d: "k \<notin> set before" "k \<notin> set after"
    using ro ks by (auto simp: range_order_def)
  have m1: "memories (foldl (age cfg) ?st0 before) k = Some m"
    using foldl_age_other [OF d(1), of cfg ?st0] rec by simp
  have h: "handle cfg st (Tick now ks)
           = foldl (age cfg) (age cfg (foldl (age cfg) ?st0 before) k) after"
    by (simp add: processMemories_def ks)
  show ?thesis
    using ks m1 h d(2) by blast
qed

lemma tick_head:
  assumes ok: "table_ok cfg st" and ro: "range_order ks (memories st)"
    and rec: "memories st k = Some m" and w: "waiters m = w # ws"
  shows "(state m = newMemory \<longrightarrow>
            memories (handle cfg st (Tick now ks)) k = Some (m\<lparr>state := seen\<rparr>))
       \<and> (state m = seen \<longrightarrow>
            length (answers st w) < length (answers (handle cfg st (Tick now ks)) w))"
proof -
  let ?st0 = "st\<lparr>shortTermMemories := sweep now (shortTermMemories st)\<rparr>"
  obtain before after where ks: "ks = before @ k # after"
    and m1: "memories (foldl (age cfg) ?st0 before) k = Some m"
    and h: "handle cfg st (Tick now ks)
            = foldl (age cfg) (age cfg (foldl (age cfg) ?st0 before) k) after"
    and na: "k \<notin> set after"
    using tick_at_key [OF ro rec, of cfg now] by blast
  let ?st1 = "foldl (age cfg) ?st0 before"
  have a0: "answers ?st0 w = answers st w"
    by (simp add: answers_def)
  have new: "memories (handle cfg st (Tick now ks)) k = Some (m\<lparr>state := seen\<rparr>)"
    if "state m = newMemory"
    using that m1 h foldl_age_other [OF na, of cfg "age cfg ?st1 k"] by (simp add: age_def)
  have sn: "length (answers st w) < length (answers (handle cfg st (Tick now ks)) w)"
    if "state m = seen"
  proof -
    have "age cfg ?st1 k = replyToWaiter cfg ?st1 k"
      using that m1 w by (simp add: age_def)
    then have "length (answers (age cfg ?st1 k) w) = Suc (length (answers ?st1 w))"
      using answers_replyToWaiter [OF m1 w, of cfg w] by simp
    moreover have "length (answers st w) \<le> length (answers ?st1 w)"
      using answers_foldl_age_mono [of ?st0 w cfg before] a0 by simp
    moreover have "length (answers (age cfg ?st1 k) w)
                   \<le> length (answers (handle cfg st (Tick now ks)) w)"
      using answers_foldl_age_mono [of "age cfg ?st1 k" w cfg after] h by simp
    ultimately show ?thesis by linarith
  qed
  show ?thesis
    using new sn by blast
qed

lemma head_stays_request:
  assumes ok: "table_ok cfg st" and rec: "memories st k = Some m" and w: "waiters m = w # ws"
    and na: "length (answers (brainChanEvent cfg st op) w) = length (answers st w)"
  shows "\<exists>ws'. memories (brainChanEvent cfg st op) k = Some (m\<lparr>waiters := w # ws'\<rparr>)
               \<and> set ws \<subseteq> set ws'"
proof -
  have same: "memories st' k = Some m \<Longrightarrow>
              \<exists>ws'. memories st' k = Some (m\<lparr>waiters := w # ws'\<rparr>) \<and> set ws \<subseteq> set ws'"
    for st' :: "'a world"
    using w by (intro exI [of _ ws]) simp
  have served: "length (answers (replyToWaiter cfg st2 k) w) \<noteq> length (answers st w)"
    if "memories st2 k = Some m" "answers st2 w = answers st w" for st2
    using answers_replyToWaiter [OF that(1) w, of cfg w] that(2) by simp
  show ?thesis
  proof (cases op)
    case (checkOutBytes creq)
    obtain rep st1 where g: "getDatum cfg st (key creq) (rw creq) = (rep, st1)"
      by (metis prod.exhaust)
    have m1: "memories st1 = memories st"
      using getDatum_keeps_memories [of cfg st "key creq" "rw creq"] g by simp
    show ?thesis
    proof (cases "key creq = k")
      case False
      then have "memories (checkOutOp cfg st creq) k = Some m"
        using rec g m1
        by (auto simp add: checkOutOp_def Let_def split: option.splits prod.splits)
      then show ?thesis
        using checkOutBytes same by simp
    next
      case True
      have sa: "state m \<noteq> available"
        using table_okD(4) [OF ok rec] w by auto
      show ?thesis
      proof (cases "rw creq")
        case False
        then have "memories (checkOutOp cfg st creq) k = Some m"
          using rec g m1 True by (auto simp add: checkOutOp_def split: prod.splits)
        then show ?thesis
          using checkOutBytes same by simp
      next
        case rw: True
        have "memories (checkOutOp cfg st creq) k = Some (m\<lparr>waiters := w # (ws @ [creq])\<rparr>)"
          using rec True rw sa w by (simp add: checkOutOp_def)
        then show ?thesis
          using checkOutBytes by (intro exI [of _ "ws @ [creq]"]) auto
      qed
    qed
  next
    case (checkInBytes k' tok)
    show ?thesis
    proof (cases "k' = k")
      case False
      then have "memories (checkInOp cfg st k' tok) k = Some m"
        using rec replyToWaiter_other [of k k' cfg st]
        by (simp add: checkInOp_def split: option.splits)
      then show ?thesis
        using checkInBytes same by simp
    next
      case True
      show ?thesis
      proof (cases "tok = token m")
        case False
        then show ?thesis
          using checkInBytes True rec same by (simp add: checkInOp_def)
      next
        case tk: True
        have "brainChanEvent cfg st op = replyToWaiter cfg st k"
          using checkInBytes True tk rec w by (simp add: checkInOp_def)
        then show ?thesis
          using na served [OF rec refl] by simp
      qed
    qed
  next
    case (updateBytes k' tok datum c)
    obtain r st1 where s: "storeDatum cfg st k' datum = (r, st1)"
      by (metis prod.exhaust)
    let ?st2 = "st1\<lparr>trace := trace st1 @ [UpdateReplied c r]\<rparr>"
    have m2: "memories ?st2 = memories st"
      using storeDatum_keeps(2) [of cfg st k' datum] s by simp
    have a2: "answers ?st2 w = answers st w"
      using answers_storeDatum [of cfg st k' datum w] s by (simp add: answers_def)
    show ?thesis
    proof (cases "k' = k")
      case False
      then have "memories (updateOp cfg st k' tok datum c) k = Some m"
        using rec s m2 replyToWaiter_other [of k k' cfg ?st2]
        by (simp add: updateOp_def Let_def split: option.splits)
      then show ?thesis
        using updateBytes same by simp
    next
      case True
      show ?thesis
      proof (cases "tok = token m")
        case False
        then show ?thesis
          using updateBytes True rec same by (simp add: updateOp_def)
      next
        case tk: True
        have "brainChanEvent cfg st op = replyToWaiter cfg ?st2 k"
          using updateBytes True tk rec w s by (simp add: updateOp_def Let_def)
        moreover have "memories ?st2 k = Some m"
          using m2 rec by simp
        ultimately show ?thesis
          using na served [OF _ a2] by simp
      qed
    qed
  next
    case (quit c)
    then show ?thesis
      using rec same by simp
  qed
qed



subsection \<open>Nobody overtakes the head of the queue\<close>

lemma answered_only_head:
  assumes ok: "table_ok cfg st" and rec: "memories st k = Some m" and w: "w \<in> set (waiters m)"
    and tk: "tick_ok st ev" and ch: "answers (handle cfg st ev) w \<noteq> answers st w"
  shows "w = hd (waiters m)
         \<and> (ev = Request (checkInBytes k (token m))
            \<or> (\<exists>datum c. ev = Request (updateBytes k (token m) datum c))
            \<or> (\<exists>now ks. ev = Tick now ks \<and> state m = seen))"
proof (cases ev)
  case (Request op)
  then show ?thesis
    using answered_by_request [OF ok rec w, of op] ch by auto
next
  case (Tick now ks)
  let ?st0 = "st\<lparr>shortTermMemories := sweep now (shortTermMemories st)\<rparr>"
  have ok0: "table_ok cfg ?st0"
    using ok by (simp add: table_ok_def)
  have d: "distinct ks"
    using tk Tick by (simp add: range_order_def)
  have "answers (foldl (age cfg) ?st0 ks) w \<noteq> answers ?st0 w"
    using ch Tick by (simp add: processMemories_def answers_def)
  then obtain k' m' ws where k': "memories st k' = Some m'" "state m' = seen"
    "waiters m' = w # ws"
    using answered_by_tick [OF ok0 d, of w] by auto
  have "key w = k'"
    using table_okD(3) [OF ok k'(1)] k'(3) by simp
  moreover have "key w = k"
    using table_okD(3) [OF ok rec] w by (auto simp: list_all_iff)
  ultimately have "m' = m"
    using k'(1) rec by simp
  then show ?thesis
    using k' Tick by simp
qed

lemma head_stays:
  assumes ok: "table_ok cfg st" and rec: "memories st k = Some m" and w: "waiters m = w # ws"
    and tk: "tick_ok st ev"
    and na: "length (answers (handle cfg st ev) w) = length (answers st w)"
  shows "\<exists>m' ws'. memories (handle cfg st ev) k = Some m' \<and> waiters m' = w # ws'
                  \<and> set ws \<subseteq> set ws'"
proof (cases ev)
  case (Request op)
  then show ?thesis
    using head_stays_request [OF ok rec w, of op] na by auto
next
  case (Tick now ks)
  have ro: "range_order ks (memories st)"
    using tk Tick by simp
  note th = tick_head [OF ok ro rec w, of now]
  show ?thesis
  proof (cases "state m")
    case newMemory
    then have "memories (handle cfg st ev) k = Some (m\<lparr>state := seen\<rparr>)"
      using th Tick by simp
    then show ?thesis
      using w by auto
  next
    case seen
    then show ?thesis
      using th na Tick by simp
  next
    case available
    then show ?thesis
      using table_okD(4) [OF ok rec] w by simp
  qed
qed

lemma no_overtaking:
  assumes "table_ok cfg st" and "memories st k = Some m" and "waiters m = w1 # ws"
    and "w2 \<in> set ws" and "w2 \<noteq> w1" and "ticks_ok cfg st evs"
    and "length (answers st w2) < length (answers (runBrain cfg st evs) w2)"
  shows "length (answers st w1) < length (answers (runBrain cfg st evs) w1)"
  using assms
proof (induction evs arbitrary: st m ws)
  case Nil
  then show ?case by simp
next
  case (Cons ev evs)
  let ?st1 = "handle cfg st ev"
  have nq: "\<not> is_quit ev" and tk: "tick_ok st ev" and rest: "ticks_ok cfg ?st1 evs"
    using Cons.prems(6) by simp_all
  have run: "runBrain cfg st (ev # evs) = runBrain cfg ?st1 evs"
    using nq by (simp add: runBrain_Cons del: runBrain.simps)
  have mono: "length (answers st w1) \<le> length (answers ?st1 w1)"
    by (rule answers_handle_mono)
  show ?case
  proof (cases "length (answers st w1) < length (answers ?st1 w1)")
    case True
    then show ?thesis
      using answers_runBrain_mono [of ?st1 w1 cfg evs] run by simp
  next
    case False
    then have eq: "length (answers ?st1 w1) = length (answers st w1)"
      using mono by simp
    have in_q: "w2 \<in> set (waiters m)"
      using Cons.prems(3,4) by simp
    have "hd (waiters m) \<noteq> w2"
      using Cons.prems(3,5) by simp
    then have same2: "answers ?st1 w2 = answers st w2"
      using answered_only_head [OF Cons.prems(1) Cons.prems(2) in_q tk] by blast
    obtain m' ws' where m1: "memories ?st1 k = Some m'" "waiters m' = w1 # ws'"
      "set ws \<subseteq> set ws'"
      using head_stays [OF Cons.prems(1) Cons.prems(2) Cons.prems(3) tk eq] by blast
    have ok1: "table_ok cfg ?st1"
      by (rule table_ok_handle [OF Cons.prems(1)])
    have w2': "w2 \<in> set ws'"
      using m1(3) Cons.prems(4) by auto
    have later: "length (answers ?st1 w2) < length (answers (runBrain cfg ?st1 evs) w2)"
      using Cons.prems(7) same2 run by simp
    have "length (answers ?st1 w1) < length (answers (runBrain cfg ?st1 evs) w1)"
      by (rule Cons.IH [OF ok1 m1(1) m1(2) w2' Cons.prems(5) rest later])
    then show ?thesis
      using eq run by simp
  qed
qed

subsection \<open>Exclusive check-outs exclude each other\<close>






lemma contended_world:
  "contended =
     world0\<lparr>memories := [''ping:foo'' \<mapsto> \<lparr>state = newMemory, token = mint cfg0 0, waiters = [bob]\<rparr>],
            nrand := Suc 0,
            trace := [Retrieved ''ping:foo'',
                      CheckOutReplied alice (mint cfg0 0, None, False, Ok)]\<rparr>"
proof -
  have s: "start world0 = world0"
    by (simp add: start_def world0_def)
  have p: "provider world0 ''ping:foo'' = None" "nrand world0 = 0" "trace world0 = []"
    "memories world0 = Map.empty"
    by (simp_all add: world0_def)
  have a: "checkOutOp cfg0 world0 alice
           = world0\<lparr>memories := [''ping:foo'' \<mapsto> \<lparr>state = newMemory, token = mint cfg0 0, waiters = []\<rparr>],
                    nrand := Suc 0,
                    trace := [Retrieved ''ping:foo'',
                              CheckOutReplied alice (mint cfg0 0, None, False, Ok)]\<rparr>"
    using getDatum_cfg0_absent [OF p(1)] p
    by (simp add: checkOutOp_def alice_def)
  have b: "checkOutOp cfg0
             (world0\<lparr>memories := [''ping:foo'' \<mapsto> \<lparr>state = newMemory, token = mint cfg0 0, waiters = []\<rparr>],
                    nrand := Suc 0,
                    trace := [Retrieved ''ping:foo'',
                              CheckOutReplied alice (mint cfg0 0, None, False, Ok)]\<rparr>)
             bob
           = world0\<lparr>memories := [''ping:foo'' \<mapsto> \<lparr>state = newMemory, token = mint cfg0 0, waiters = [bob]\<rparr>],
                    nrand := Suc 0,
                    trace := [Retrieved ''ping:foo'',
                              CheckOutReplied alice (mint cfg0 0, None, False, Ok)]\<rparr>"
    by (simp add: checkOutOp_def bob_def)
  show ?thesis
    unfolding contended_def s
    by (simp add: a b)
qed


subsection \<open>Check-in and update with the current token\<close>

text \<open>
  C4.  In a world the loop can reach, take a key \<open>k\<close> with a record \<open>m\<close>, and a check-in
  that presents the record's token.  If waiters are queued, \<open>w\<close> first, the step pops
  exactly \<open>w\<close>, runs \<open>getDatum\<close> read-write for the key (the provider is asked for \<open>k\<close>
  again and one more token is minted), leaves the record in state \<open>newMemory\<close> with the
  rest of the queue and the token of that reply, and sends the reply to \<open>w\<close> as the last
  thing it does; when the fetch succeeds the token is the fresh 16-digit one, and when it
  fails the reply and the record carry the empty token.  The token is new: it is made
  from a draw of \<open>rand.Read\<close> that no earlier token was made from, it determines the
  eight bytes drawn (a token equal to it was made from the same eight bytes), and
  whenever these eight bytes differ from those of the earlier draws, it differs from the
  token the record had, from every token sent in a reply so far and from the token of
  every record in the table.  If no waiter is queued, the step
  deletes the record and nothing else.  An update with the record's token is: the store,
  the reply to the updater, and then that same check-in step.  A read-write check-out
  that finds the record held goes to the end of the queue, so the one served is always
  the one that has waited longest: in no run of the loop does a waiter further back get
  its reply before the head of the queue has got one.
\<close>

theorem checkin_serves_head_waiter:
  assumes ok: "table_ok cfg st" and rec: "memories st k = Some m"
  shows
   "(\<forall>w ws. waiters m = w # ws \<longrightarrow>
       (case getDatum cfg st k True of
          ((lt, d, e, r), st1) \<Rightarrow>
            key w = k
            \<and> handle cfg st (Request (checkInBytes k (token m)))
                = st1\<lparr>memories := (memories st)
                         (k \<mapsto> \<lparr>state = newMemory, token = lt, waiters = ws\<rparr>),
                      trace := trace st1 @ [CheckOutReplied w (lt, d, e, r)]\<rparr>
            \<and> (\<exists>effs. trace st1 = trace st @ Retrieved k # effs \<and> list_all storageEffect effs)
            \<and> nrand st1 = Suc (nrand st)
            \<and> (r = Ok \<longrightarrow> lt = mint cfg (nrand st) \<and> length lt = 16)
            \<and> (r \<noteq> Ok \<longrightarrow> lt = '''')
            \<and> (r = Ok \<longrightarrow>
                 (\<forall>i. mint cfg i = lt \<longrightarrow> rand_Read cfg i = rand_Read cfg (nrand st)))
            \<and> (r = Ok \<and> tokens_ok cfg st
                 \<and> (\<forall>i < nrand st. rand_Read cfg i \<noteq> rand_Read cfg (nrand st)) \<longrightarrow>
                 lt \<noteq> token m
                 \<and> (\<forall>eff \<in> set (trace st). tokenOf eff \<noteq> lt)
                 \<and> (\<forall>k' m'. memories st k' = Some m' \<longrightarrow> token m' \<noteq> lt))))
    \<and> (waiters m = [] \<longrightarrow>
         handle cfg st (Request (checkInBytes k (token m)))
           = st\<lparr>memories := (memories st)(k := None)\<rparr>)
    \<and> (\<forall>datum ch.
         (case storeDatum cfg st k datum of
            (sr, st0) \<Rightarrow>
              memories st0 = memories st
              \<and> handle cfg st (Request (updateBytes k (token m) datum ch))
                  = handle cfg (st0\<lparr>trace := trace st0 @ [UpdateReplied ch sr]\<rparr>)
                      (Request (checkInBytes k (token m)))))
    \<and> (\<forall>creq. key creq = k \<and> rw creq \<and> state m \<noteq> available \<longrightarrow>
         handle cfg st (Request (checkOutBytes creq))
           = st\<lparr>memories := (memories st)(k \<mapsto> m\<lparr>waiters := waiters m @ [creq]\<rparr>)\<rparr>)
    \<and> (\<forall>w1 ws w2 evs. waiters m = w1 # ws \<and> w2 \<in> set ws \<and> w2 \<noteq> w1 \<and> ticks_ok cfg st evs
           \<and> length (answers st w2) < length (answers (runBrain cfg st evs) w2) \<longrightarrow>
         length (answers st w1) < length (answers (runBrain cfg st evs) w1))"
proof -
  note d = table_okD [OF ok rec]
  have serve: "case getDatum cfg st k True of
          ((lt, d, e, r), st1) \<Rightarrow>
            key w = k
            \<and> handle cfg st (Request (checkInBytes k (token m)))
                = st1\<lparr>memories := (memories st)
                         (k \<mapsto> \<lparr>state = newMemory, token = lt, waiters = ws\<rparr>),
                      trace := trace st1 @ [CheckOutReplied w (lt, d, e, r)]\<rparr>
            \<and> (\<exists>effs. trace st1 = trace st @ Retrieved k # effs \<and> list_all storageEffect effs)
            \<and> nrand st1 = Suc (nrand st)
            \<and> (r = Ok \<longrightarrow> lt = mint cfg (nrand st) \<and> length lt = 16)
            \<and> (r \<noteq> Ok \<longrightarrow> lt = '''')
            \<and> (r = Ok \<longrightarrow>
                 (\<forall>i. mint cfg i = lt \<longrightarrow> rand_Read cfg i = rand_Read cfg (nrand st)))
            \<and> (r = Ok \<and> tokens_ok cfg st
                 \<and> (\<forall>i < nrand st. rand_Read cfg i \<noteq> rand_Read cfg (nrand st)) \<longrightarrow>
                 lt \<noteq> token m
                 \<and> (\<forall>eff \<in> set (trace st). tokenOf eff \<noteq> lt)
                 \<and> (\<forall>k' m'. memories st k' = Some m' \<longrightarrow> token m' \<noteq> lt))"
    if w: "waiters m = w # ws" for w ws
  proof -
    have kw: "key w = k"
      using d(3) w by simp
    obtain lt d' e r st1 where g: "getDatum cfg st k True = ((lt, d', e, r), st1)"
      by (metis prod.exhaust)
    have h: "handle cfg st (Request (checkInBytes k (token m)))
             = st1\<lparr>memories := (memories st)
                      (k \<mapsto> \<lparr>state = newMemory, token = lt, waiters = ws\<rparr>),
                   trace := trace st1 @ [CheckOutReplied w (lt, d', e, r)]\<rparr>"
      using rec w replyToWaiter_serves [OF rec w, of cfg] kw g
      by (simp add: checkInOp_def)
    have f: "\<exists>effs. trace st1 = trace st @ Retrieved k # effs \<and> list_all storageEffect effs"
      using getDatum_fetches [OF d(1) d(2), of st True] g by simp
    have n: "nrand st1 = Suc (nrand st)"
      using getDatum_nrand [of cfg st k True] d(1) d(2) g by simp
    have t1: "r = Ok \<longrightarrow> lt = mint cfg (nrand st) \<and> length lt = 16"
      using getDatum_Ok [of cfg st k True] g by (simp add: length_mint)
    have t2: "r \<noteq> Ok \<longrightarrow> lt = ''''"
      using getDatum_not_Ok [of cfg st k True] g by simp
    have t3: "r = Ok \<longrightarrow>
              (\<forall>i. mint cfg i = lt \<longrightarrow> rand_Read cfg i = rand_Read cfg (nrand st))"
      using t1 by (simp add: mint_inj)
    have t4: "r = Ok \<and> tokens_ok cfg st
                 \<and> (\<forall>i < nrand st. rand_Read cfg i \<noteq> rand_Read cfg (nrand st)) \<longrightarrow>
              lt \<noteq> token m
              \<and> (\<forall>eff \<in> set (trace st). tokenOf eff \<noteq> lt)
              \<and> (\<forall>k' m'. memories st k' = Some m' \<longrightarrow> token m' \<noteq> lt)"
    proof (intro impI, elim conjE)
      assume r: "r = Ok" and tok: "tokens_ok cfg st"
        and draw: "\<forall>i < nrand st. rand_Read cfg i \<noteq> rand_Read cfg (nrand st)"
      have lt: "lt = mint cfg (nrand st)"
        using t1 r by simp
      have new: "t \<noteq> lt" if mt: "minted cfg (nrand st) t" for t
      proof
        assume e: "t = lt"
        have "t \<noteq> ''''"
          using e lt length_mint [of cfg "nrand st"] by auto
        then obtain i where i: "i < nrand st" "t = mint cfg i"
          using mt unfolding minted_def by blast
        then have "rand_Read cfg i = rand_Read cfg (nrand st)"
          using e lt by (simp add: mint_inj)
        then show False
          using i(1) draw by blast
      qed
      have n1: "lt \<noteq> token m"
        using new [of "token m"] tok rec unfolding tokens_ok_def by blast
      have n2: "\<forall>eff \<in> set (trace st). tokenOf eff \<noteq> lt"
        using new tok unfolding tokens_ok_def by blast
      have n3: "\<forall>k' m'. memories st k' = Some m' \<longrightarrow> token m' \<noteq> lt"
        using new tok unfolding tokens_ok_def by blast
      show "lt \<noteq> token m
              \<and> (\<forall>eff \<in> set (trace st). tokenOf eff \<noteq> lt)
              \<and> (\<forall>k' m'. memories st k' = Some m' \<longrightarrow> token m' \<noteq> lt)"
        using n1 n2 n3 by blast
    qed
    show ?thesis
      unfolding g prod.case
      apply (rule conjI, rule kw)
      apply (rule conjI, rule h)
      apply (rule conjI, rule f)
      apply (rule conjI, rule n)
      apply (rule conjI, rule t1)
      apply (rule conjI, rule t2)
      apply (rule conjI, rule t3)
      apply (rule t4)
      done
  qed
  have release: "waiters m = [] \<Longrightarrow>
         handle cfg st (Request (checkInBytes k (token m)))
           = st\<lparr>memories := (memories st)(k := None)\<rparr>"
    using rec by (simp add: checkInOp_def)
  have upd: "case storeDatum cfg st k datum of
            (sr, st0) \<Rightarrow>
              memories st0 = memories st
              \<and> handle cfg st (Request (updateBytes k (token m) datum ch))
                  = handle cfg (st0\<lparr>trace := trace st0 @ [UpdateReplied ch sr]\<rparr>)
                      (Request (checkInBytes k (token m)))" for datum ch
  proof -
    obtain sr st0 where s: "storeDatum cfg st k datum = (sr, st0)"
      by (metis prod.exhaust)
    have m0: "memories st0 = memories st"
      using storeDatum_keeps(2) [of cfg st k datum] s by simp
    show ?thesis
      using s m0 rec by (simp add: updateOp_def checkInOp_def Let_def)
  qed
  have enq: "key creq = k \<and> rw creq \<and> state m \<noteq> available \<longrightarrow>
         handle cfg st (Request (checkOutBytes creq))
           = st\<lparr>memories := (memories st)(k \<mapsto> m\<lparr>waiters := waiters m @ [creq]\<rparr>)\<rparr>" for creq
    using rec by (auto simp add: checkOutOp_def)
  have order: "length (answers st w1) < length (answers (runBrain cfg st evs) w1)"
    if "waiters m = w1 # ws" "w2 \<in> set ws" "w2 \<noteq> w1" "ticks_ok cfg st evs"
      "length (answers st w2) < length (answers (runBrain cfg st evs) w2)" for w1 ws w2 evs
    by (rule no_overtaking [OF ok rec that])
  show ?thesis
    apply (rule conjI, intro allI impI, erule serve)
    apply (rule conjI, rule impI, erule release)
    apply (rule conjI, intro allI, rule upd)
    apply (rule conjI, intro allI, rule enq)
    apply (intro allI impI, elim conjE, erule (4) order)
    done
qed

theorem checkin_serves_head_waiter_witness:
  "table_ok cfg0 (held newMemory [bob, alice])
   \<and> memories (handle cfg0 (held newMemory [bob, alice])
        (Request (checkInBytes ''ping:foo'' ''00000000000000aa'')))
       = [''ping:foo'' \<mapsto> \<lparr>state = newMemory, token = mint cfg0 0, waiters = [alice]\<rparr>]
   \<and> trace (handle cfg0 (held newMemory [bob, alice])
        (Request (checkInBytes ''ping:foo'' ''00000000000000aa'')))
       = [Retrieved ''ping:foo'', CheckOutReplied bob (mint cfg0 0, None, False, Ok)]
   \<and> memories (handle cfg0 (held seen [])
        (Request (checkInBytes ''ping:foo'' ''00000000000000aa''))) = Map.empty
   \<and> handle cfg0 (held newMemory [bob]) (Request (checkOutBytes alice))
       = held newMemory [bob, alice]
   \<and> handle (cfg0\<lparr>brain := Some downBrain\<rparr>) (held newMemory [bob])
        (Request (checkInBytes ''ping:foo'' ''00000000000000aa''))
       = (held newMemory [bob])
           \<lparr>memories := [''ping:foo'' \<mapsto> \<lparr>state = newMemory, token = '''', waiters = []\<rparr>],
            nrand := Suc 0,
            trace := [Retrieved ''ping:foo'',
                      CheckOutReplied bob ('''', None, False, BrainFailed)]\<rparr>
   \<and> ticks_ok cfg0 (held newMemory [bob, alice])
        [Request (checkInBytes ''ping:foo'' ''00000000000000aa''),
         Request (checkInBytes ''ping:foo'' (mint cfg0 0))]
   \<and> length (answers (held newMemory [bob, alice]) alice)
       < length (answers (runBrain cfg0 (held newMemory [bob, alice])
           [Request (checkInBytes ''ping:foo'' ''00000000000000aa''),
            Request (checkInBytes ''ping:foo'' (mint cfg0 0))]) alice)
   \<and> length (answers (held newMemory [bob, alice]) bob)
       < length (answers (runBrain cfg0 (held newMemory [bob, alice])
           [Request (checkInBytes ''ping:foo'' ''00000000000000aa''),
            Request (checkInBytes ''ping:foo'' (mint cfg0 0))]) bob)
   \<and> table_ok cfg0 contended \<and> tokens_ok cfg0 contended
   \<and> nrand contended = Suc 0 \<and> rand_Read cfg0 0 \<noteq> rand_Read cfg0 (Suc 0)
   \<and> memories contended ''ping:foo''
       = Some \<lparr>state = newMemory, token = ''0000000000000000'', waiters = [bob]\<rparr>
   \<and> trace contended
       = [Retrieved ''ping:foo'',
          CheckOutReplied alice (''0000000000000000'', None, False, Ok)]
   \<and> handle cfg0 contended (Request (checkInBytes ''ping:foo'' ''0000000000000000''))
       = contended
           \<lparr>nrand := Suc (Suc 0),
            memories := [''ping:foo'' \<mapsto>
                           \<lparr>state = newMemory, token = ''0100000000000000'', waiters = []\<rparr>],
            trace := [Retrieved ''ping:foo'',
                      CheckOutReplied alice (''0000000000000000'', None, False, Ok),
                      Retrieved ''ping:foo'',
                      CheckOutReplied bob (''0100000000000000'', None, False, Ok)]\<rparr>
   \<and> ''0100000000000000'' \<noteq> token \<lparr>state = newMemory, token = ''0000000000000000'', waiters = [bob]\<rparr>
   \<and> list_all (\<lambda>eff. tokenOf eff \<noteq> ''0100000000000000'') (trace contended)
   \<and> rand_Read cfg0 (2 ^ 64 + 1) = rand_Read cfg0 (Suc 0)"
proof -
  have okc: "table_ok cfg0 contended"
    unfolding contended_def by (rule table_ok_runBrain [OF table_ok_start])
  have tokc: "tokens_ok cfg0 contended"
    unfolding contended_def by (rule tokens_ok_runBrain [OF tokens_ok_start])
  have nc: "nrand contended = Suc 0"
    by (simp add: contended_world)
  have dc: "rand_Read cfg0 0 \<noteq> rand_Read cfg0 (Suc 0)"
    by (simp add: cfg0_def)
  have recc: "memories contended ''ping:foo''
              = Some \<lparr>state = newMemory, token = ''0000000000000000'', waiters = [bob]\<rparr>"
    by (simp add: contended_world mint_cfg0)
  have trc: "trace contended
             = [Retrieved ''ping:foo'',
                CheckOutReplied alice (''0000000000000000'', None, False, Ok)]"
    by (simp add: contended_world mint_cfg0)
  have pc: "provider contended ''ping:foo'' = None"
    by (simp add: contended_world world0_def)
  have gc: "getDatum cfg0 contended ''ping:foo'' True
            = ((''0100000000000000'', None, False, Ok),
               contended\<lparr>nrand := Suc (Suc 0),
                         trace := trace contended @ [Retrieved ''ping:foo'']\<rparr>)"
    using getDatum_cfg0_absent [OF pc] by (simp add: nc mint_cfg0)
  have cc: "waiters \<lparr>state = newMemory, token = ''0000000000000000'', waiters = [bob]\<rparr>
            = bob # []"
    by simp
  note thc = checkin_serves_head_waiter [OF okc recc, THEN conjunct1, rule_format, OF cc,
      unfolded gc prod.case]
  have hc: "handle cfg0 contended (Request (checkInBytes ''ping:foo'' ''0000000000000000''))
       = contended
           \<lparr>nrand := Suc (Suc 0),
            memories := [''ping:foo'' \<mapsto>
                           \<lparr>state = newMemory, token = ''0100000000000000'', waiters = []\<rparr>],
            trace := [Retrieved ''ping:foo'',
                      CheckOutReplied alice (''0000000000000000'', None, False, Ok),
                      Retrieved ''ping:foo'',
                      CheckOutReplied bob (''0100000000000000'', None, False, Ok)]\<rparr>"
    using thc [THEN conjunct2, THEN conjunct1]
    by (simp add: contended_world mint_cfg0)
  have drawc: "\<forall>i < nrand contended. rand_Read cfg0 i \<noteq> rand_Read cfg0 (nrand contended)"
    using dc by (simp add: nc)
  note newc = thc [THEN conjunct2, THEN conjunct2, THEN conjunct2, THEN conjunct2,
      THEN conjunct2, THEN conjunct2, THEN conjunct2, rule_format,
      OF conjI [OF refl conjI [OF tokc drawc]]]
  have new1: "''0100000000000000''
              \<noteq> token \<lparr>state = newMemory, token = ''0000000000000000'', waiters = [bob]\<rparr>"
    by (rule newc [THEN conjunct1])
  have new2: "list_all (\<lambda>eff. tokenOf eff \<noteq> ''0100000000000000'') (trace contended)"
    unfolding list_all_iff by (rule newc [THEN conjunct2, THEN conjunct1])
  have m1: "mint cfg0 (2 ^ 64 + 1) = ''0100000000000000''"
    by (simp add: mint_def cfg0_def sprintf_x_def ltb_def hexByte_def hexDigit_def)
  have new3: "rand_Read cfg0 (2 ^ 64 + 1) = rand_Read cfg0 (Suc 0)"
    using thc [THEN conjunct2, THEN conjunct2, THEN conjunct2, THEN conjunct2,
      THEN conjunct2, THEN conjunct2, THEN conjunct1, rule_format, OF refl m1]
    by (simp add: nc)
  have ok2: "table_ok cfg0 (held newMemory [bob, alice])"
    by (rule table_ok_held) (simp_all add: bob_def alice_def cfg0_def)
  have ok0: "table_ok cfg0 (held seen [])"
    by (rule table_ok_held) (simp_all add: cfg0_def)
  have ok1: "table_ok cfg0 (held newMemory [bob])"
    by (rule table_ok_held) (simp_all add: bob_def cfg0_def)
  have g: "getDatum cfg0 (held newMemory [bob, alice]) ''ping:foo'' True
           = ((mint cfg0 0, None, False, Ok),
              (held newMemory [bob, alice])\<lparr>nrand := Suc 0, trace := [Retrieved ''ping:foo'']\<rparr>)"
    using getDatum_cfg0_absent [OF held_provider, of newMemory "[bob, alice]"]
    by (simp add: held_memories)
  have c: "waiters \<lparr>state = newMemory, token = ''00000000000000aa'', waiters = [bob, alice]\<rparr>
           = bob # [alice]"
    by simp
  note th2 = checkin_serves_head_waiter [OF ok2 held_memories(1)]
  note th0 = checkin_serves_head_waiter [OF ok0 held_memories(1)]
  note th1 = checkin_serves_head_waiter [OF ok1 held_memories(1)]
  note served = th2 [THEN conjunct1, rule_format, OF c, unfolded g prod.case,
      THEN conjunct2, THEN conjunct1]
  have w1: "memories (handle cfg0 (held newMemory [bob, alice])
              (Request (checkInBytes ''ping:foo'' ''00000000000000aa'')))
            = [''ping:foo'' \<mapsto> \<lparr>state = newMemory, token = mint cfg0 0, waiters = [alice]\<rparr>]
          \<and> trace (handle cfg0 (held newMemory [bob, alice])
              (Request (checkInBytes ''ping:foo'' ''00000000000000aa'')))
            = [Retrieved ''ping:foo'', CheckOutReplied bob (mint cfg0 0, None, False, Ok)]"
    using served by (simp add: held_memories(2))
  have w2: "memories (handle cfg0 (held seen [])
              (Request (checkInBytes ''ping:foo'' ''00000000000000aa''))) = Map.empty"
    using th0 [THEN conjunct2, THEN conjunct1]
    by (simp add: held_memories(2))
  have a: "key alice = ''ping:foo'' \<and> rw alice
           \<and> state \<lparr>state = newMemory, token = ''00000000000000aa'', waiters = [bob]\<rparr> \<noteq> available"
    by (simp add: alice_def)
  note queued = th1 [THEN conjunct2, THEN conjunct2, THEN conjunct2, THEN conjunct1,
      rule_format, OF a]
  have w3: "handle cfg0 (held newMemory [bob]) (Request (checkOutBytes alice))
            = held newMemory [bob, alice]"
    using queued by (simp add: held_def)
  let ?evs = "[Request (checkInBytes ''ping:foo'' ''00000000000000aa''),
               Request (checkInBytes ''ping:foo'' (mint cfg0 0))]"
  have tk: "ticks_ok cfg0 (held newMemory [bob, alice]) ?evs"
    by simp
  have a0: "answers (held newMemory [bob, alice]) alice = []"
    by (simp add: answers_def held_memories)
  have p1: "provider ((held newMemory [bob, alice])
              \<lparr>nrand := Suc 0, trace := [Retrieved ''ping:foo''],
               memories := [''ping:foo'' \<mapsto> \<lparr>state = newMemory, token = mint cfg0 0, waiters = [alice]\<rparr>],
               trace := [Retrieved ''ping:foo'', CheckOutReplied bob (mint cfg0 0, None, False, Ok)]\<rparr>)
            ''ping:foo'' = None"
    by (simp add: held_provider)
  have second: "CheckOutReplied alice (mint cfg0 (Suc 0), None, False, Ok)
        \<in> set (trace (runBrain cfg0 (held newMemory [bob, alice]) ?evs))"
    using served getDatum_cfg0_absent [OF p1]
    by (simp add: checkInOp_def replyToWaiter_def held_memories alice_def)
  then have "filter (repliesTo alice)
               (trace (runBrain cfg0 (held newMemory [bob, alice]) ?evs)) \<noteq> []"
    unfolding filter_empty_conv by (intro notI) (drule (1) bspec, simp)
  then have la: "length (answers (held newMemory [bob, alice]) alice)
       < length (answers (runBrain cfg0 (held newMemory [bob, alice]) ?evs) alice)"
    by (simp add: answers_def held_memories)
  have q: "waiters \<lparr>state = newMemory, token = ''00000000000000aa'', waiters = [bob, alice]\<rparr>
             = bob # [alice]
           \<and> alice \<in> set [alice] \<and> alice \<noteq> bob
           \<and> ticks_ok cfg0 (held newMemory [bob, alice]) ?evs
           \<and> length (answers (held newMemory [bob, alice]) alice)
               < length (answers (runBrain cfg0 (held newMemory [bob, alice]) ?evs) alice)"
    using tk la by (simp add: alice_def bob_def)
  note lb = th2 [THEN conjunct2, THEN conjunct2, THEN conjunct2, THEN conjunct2,
      rule_format, OF q]
  have okd: "table_ok (cfg0\<lparr>brain := Some downBrain\<rparr>) (held newMemory [bob])"
    by (rule table_ok_held) (simp_all add: bob_def)
  have gd: "getDatum (cfg0\<lparr>brain := Some downBrain\<rparr>) (held newMemory [bob]) ''ping:foo'' True
            = (('''', None, False, BrainFailed),
               (held newMemory [bob])\<lparr>nrand := Suc 0, trace := [Retrieved ''ping:foo'']\<rparr>)"
    by (simp add: getDatum_def keyRe_MatchString_foo downBrain_def Let_def held_def world0_def)
  have cb: "waiters \<lparr>state = newMemory, token = ''00000000000000aa'', waiters = [bob]\<rparr>
            = bob # []"
    by simp
  note failed = checkin_serves_head_waiter [OF okd held_memories(1), THEN conjunct1,
      rule_format, OF cb, unfolded gd prod.case, THEN conjunct2, THEN conjunct1]
  have w4: "handle (cfg0\<lparr>brain := Some downBrain\<rparr>) (held newMemory [bob])
              (Request (checkInBytes ''ping:foo'' ''00000000000000aa''))
            = (held newMemory [bob])
                \<lparr>memories := [''ping:foo'' \<mapsto> \<lparr>state = newMemory, token = '''', waiters = []\<rparr>],
                 nrand := Suc 0,
                 trace := [Retrieved ''ping:foo'',
                           CheckOutReplied bob ('''', None, False, BrainFailed)]\<rparr>"
    using failed by (simp add: held_memories(2))
  have first: "table_ok cfg0 (held newMemory [bob, alice])
   \<and> memories (handle cfg0 (held newMemory [bob, alice])
        (Request (checkInBytes ''ping:foo'' ''00000000000000aa'')))
       = [''ping:foo'' \<mapsto> \<lparr>state = newMemory, token = mint cfg0 0, waiters = [alice]\<rparr>]
   \<and> trace (handle cfg0 (held newMemory [bob, alice])
        (Request (checkInBytes ''ping:foo'' ''00000000000000aa'')))
       = [Retrieved ''ping:foo'', CheckOutReplied bob (mint cfg0 0, None, False, Ok)]
   \<and> memories (handle cfg0 (held seen [])
        (Request (checkInBytes ''ping:foo'' ''00000000000000aa''))) = Map.empty
   \<and> handle cfg0 (held newMemory [bob]) (Request (checkOutBytes alice))
       = held newMemory [bob, alice]
   \<and> handle (cfg0\<lparr>brain := Some downBrain\<rparr>) (held newMemory [bob])
        (Request (checkInBytes ''ping:foo'' ''00000000000000aa''))
       = (held newMemory [bob])
           \<lparr>memories := [''ping:foo'' \<mapsto> \<lparr>state = newMemory, token = '''', waiters = []\<rparr>],
            nrand := Suc 0,
            trace := [Retrieved ''ping:foo'',
                      CheckOutReplied bob ('''', None, False, BrainFailed)]\<rparr>
   \<and> ticks_ok cfg0 (held newMemory [bob, alice])
        [Request (checkInBytes ''ping:foo'' ''00000000000000aa''),
         Request (checkInBytes ''ping:foo'' (mint cfg0 0))]
   \<and> length (answers (held newMemory [bob, alice]) alice)
       < length (answers (runBrain cfg0 (held newMemory [bob, alice])
           [Request (checkInBytes ''ping:foo'' ''00000000000000aa''),
            Request (checkInBytes ''ping:foo'' (mint cfg0 0))]) alice)
   \<and> length (answers (held newMemory [bob, alice]) bob)
       < length (answers (runBrain cfg0 (held newMemory [bob, alice])
           [Request (checkInBytes ''ping:foo'' ''00000000000000aa''),
            Request (checkInBytes ''ping:foo'' (mint cfg0 0))]) bob)"
    using ok2 w1 w2 w3 w4 tk la lb by simp
  show ?thesis
    apply (rule conjI [OF first [THEN conjunct1]])
    apply (rule conjI [OF first [THEN conjunct2, THEN conjunct1]])
    apply (rule conjI [OF first [THEN conjunct2, THEN conjunct2, THEN conjunct1]])
    apply (rule conjI [OF first [THEN conjunct2, THEN conjunct2, THEN conjunct2, THEN conjunct1]])
    apply (rule conjI [OF first [THEN conjunct2, THEN conjunct2, THEN conjunct2, THEN conjunct2,
            THEN conjunct1]])
    apply (rule conjI [OF first [THEN conjunct2, THEN conjunct2, THEN conjunct2, THEN conjunct2,
            THEN conjunct2, THEN conjunct1]])
    apply (rule conjI [OF first [THEN conjunct2, THEN conjunct2, THEN conjunct2, THEN conjunct2,
            THEN conjunct2, THEN conjunct2, THEN conjunct1]])
    apply (rule conjI [OF first [THEN conjunct2, THEN conjunct2, THEN conjunct2, THEN conjunct2,
            THEN conjunct2, THEN conjunct2, THEN conjunct2, THEN conjunct1]])
    apply (rule conjI [OF first [THEN conjunct2, THEN conjunct2, THEN conjunct2, THEN conjunct2,
            THEN conjunct2, THEN conjunct2, THEN conjunct2, THEN conjunct2]])
    apply (rule conjI [OF okc])
    apply (rule conjI [OF tokc])
    apply (rule conjI [OF nc])
    apply (rule conjI [OF dc])
    apply (rule conjI [OF recc])
    apply (rule conjI [OF trc])
    apply (rule conjI [OF hc])
    apply (rule conjI [OF new1])
    apply (rule conjI [OF new2])
    apply (rule new3)
    done
qed

end
